theory Spec2Isabelle
  imports Complex_Main
begin

section \<open>A cooperative counting semaphore (src/index.ts)\<close>

subsection \<open>Numbers\<close>

text \<open>
  The counter \<^verbatim>\<open>_value\<close> has the TypeScript type \<^verbatim>\<open>number\<close>: a double. A number is
  a finite value, one of the two infinities, or NaN. A finite value is kept as the
  rational it denotes. The sign of zero is not kept: no operation of the class tells
  \<^verbatim>\<open>-0\<close> from \<^verbatim>\<open>0\<close>. Comparison follows the language: every comparison with NaN is
  false.
\<close>

datatype number = Finite rat | PosInfinity | NegInfinity | NaN

text \<open>\<^verbatim>\<open>a < b\<close>\<close>

fun num_lt :: "number \<Rightarrow> number \<Rightarrow> bool" where
  "num_lt (Finite a) (Finite b) = (a < b)"
| "num_lt (Finite a) PosInfinity = True"
| "num_lt NegInfinity (Finite b) = True"
| "num_lt NegInfinity PosInfinity = True"
| "num_lt _ _ = False"

text \<open>\<^verbatim>\<open>a === b\<close> on numbers\<close>

fun num_eq :: "number \<Rightarrow> number \<Rightarrow> bool" where
  "num_eq (Finite a) (Finite b) = (a = b)"
| "num_eq PosInfinity PosInfinity = True"
| "num_eq NegInfinity NegInfinity = True"
| "num_eq _ _ = False"

text \<open>
  The result of an addition or a subtraction is the double nearest to the exact
  result, the one with the even significand when two are equally near. A double has a
  significand of 53 bits and an exponent from \<open>-1022\<close> to \<open>1023\<close>; below \<open>2^-1022\<close> the
  doubles are the multiples of \<open>2^-1074\<close>; a result that rounds to \<open>2^1024\<close> or more is
  an infinity.

  \<open>bits n\<close> is the number of binary digits of \<open>n\<close>, \<open>pow2 e\<close> is \<open>2^e\<close>, and \<open>ilog2 x\<close> is
  the exponent of a positive \<open>x\<close>, the \<open>e\<close> with \<open>2^e \<le> x < 2^(e+1)\<close>: the digits of
  numerator and denominator give it up to one, and the comparison settles it.
\<close>

function bits :: "int \<Rightarrow> nat" where
  "bits n = (if n \<le> 0 then 0 else Suc (bits (n div 2)))"
  by pat_completeness auto
termination
  by (relation "measure nat") auto

declare bits.simps [simp del]

definition pow2 :: "int \<Rightarrow> rat" where
  "pow2 e = (if 0 \<le> e then 2 ^ nat e else 1 / 2 ^ nat (- e))"

definition ilog2 :: "rat \<Rightarrow> int" where
  "ilog2 x =
     (let (p, q) = quotient_of x;
          d = int (bits p) - int (bits q)
      in if pow2 d \<le> x then d else d - 1)"

text \<open>The integer nearest to \<open>y\<close>, the even one of two equally near.\<close>

definition round_even :: "rat \<Rightarrow> int" where
  "round_even y =
     (let f = \<lfloor>y\<rfloor>; r = y - of_int f
      in if r < 1 / 2 then f else if 1 / 2 < r then f + 1 else if even f then f else f + 1)"

text \<open>The double nearest to a positive \<open>x\<close>: the nearest multiple of the spacing at \<open>x\<close>.\<close>

definition round_pos :: "rat \<Rightarrow> number" where
  "round_pos x =
     (let e = max (ilog2 x) (- 1022);
          q = pow2 (e - 52);
          y = of_int (round_even (x / q)) * q
      in if pow2 1024 \<le> y then PosInfinity else Finite y)"

fun negate :: "number \<Rightarrow> number" where
  "negate (Finite y) = Finite (- y)"
| "negate PosInfinity = NegInfinity"
| "negate NegInfinity = PosInfinity"
| "negate NaN = NaN"

definition round_double :: "rat \<Rightarrow> number" where
  "round_double x =
     (if x = 0 then Finite 0 else if 0 < x then round_pos x else negate (round_pos (- x)))"

text \<open>\<^verbatim>\<open>a + b\<close>\<close>

fun num_add :: "number \<Rightarrow> number \<Rightarrow> number" where
  "num_add (Finite a) (Finite b) = round_double (a + b)"
| "num_add NaN _ = NaN"
| "num_add _ NaN = NaN"
| "num_add PosInfinity NegInfinity = NaN"
| "num_add NegInfinity PosInfinity = NaN"
| "num_add PosInfinity _ = PosInfinity"
| "num_add _ PosInfinity = PosInfinity"
| "num_add NegInfinity _ = NegInfinity"
| "num_add _ NegInfinity = NegInfinity"

text \<open>\<^verbatim>\<open>a - b\<close>\<close>

fun num_sub :: "number \<Rightarrow> number \<Rightarrow> number" where
  "num_sub (Finite a) (Finite b) = round_double (a - b)"
| "num_sub NaN _ = NaN"
| "num_sub _ NaN = NaN"
| "num_sub PosInfinity PosInfinity = NaN"
| "num_sub NegInfinity NegInfinity = NaN"
| "num_sub PosInfinity _ = PosInfinity"
| "num_sub _ NegInfinity = PosInfinity"
| "num_sub NegInfinity _ = NegInfinity"
| "num_sub _ PosInfinity = NegInfinity"

text \<open>
  An integer as a number: the double nearest to it, which is the integer itself up to
  \<open>2^53\<close> in magnitude.
\<close>

definition of_integer :: "int \<Rightarrow> number" where
  "of_integer n = round_double (of_int n)"

subsection \<open>The class\<close>

text \<open>
  A waiter is the \<^verbatim>\<open>resolve\<close> function of the promise that a suspended \<^verbatim>\<open>acquire\<close>
  awaits. Two resolve functions are told apart by the promise they settle, so a handle
  is the number of that promise.
\<close>

type_synonym handle = nat

record semaphore =
  s_value :: number
  s_waiters :: "handle list"

datatype error = Error string

text \<open>
  \<^verbatim>\<open>constructor(value)\<close>: throws when \<^verbatim>\<open>value < 0\<close>, otherwise stores the value and an
  empty array.
\<close>

definition constructor :: "number \<Rightarrow> error + semaphore" where
  "constructor v =
     (if num_lt v (Finite 0) then Inl (Error ''Semaphore initial value must be >= 0'')
      else Inr \<lparr>s_value = v, s_waiters = []\<rparr>)"

text \<open>\<^verbatim>\<open>locked()\<close>: \<^verbatim>\<open>this._value === 0 || this._waiters.length > 0\<close>\<close>

definition locked :: "semaphore \<Rightarrow> bool" where
  "locked s = (num_eq (s_value s) (Finite 0) \<or> length (s_waiters s) > 0)"

text \<open>
  \<^verbatim>\<open>acquire()\<close> is an async function. Its body runs synchronously up to its
  \<^verbatim>\<open>return\<close> or up to its \<^verbatim>\<open>await\<close>; \<open>acquire\<close> is that part. The argument is the
  resolve function of the promise that \<^verbatim>\<open>new Promise\<close> creates on the second path
  (the executor runs at once and pushes it). The status says whether the call returned
  or is suspended at the \<^verbatim>\<open>await\<close>, and on which handle.
\<close>

datatype acquire_status = Returned | Awaiting handle

definition acquire :: "handle \<Rightarrow> semaphore \<Rightarrow> acquire_status \<times> semaphore" where
  "acquire h s =
     (if \<not> locked s then (Returned, s\<lparr>s_value := num_sub (s_value s) (Finite 1)\<rparr>)
      else (Awaiting h, s\<lparr>s_waiters := s_waiters s @ [h]\<rparr>))"

text \<open>
  The rest of \<^verbatim>\<open>acquire\<close>, run when the awaited promise is resolved: the function
  ends after the \<^verbatim>\<open>await\<close>, with no statement left.
\<close>

definition acquire_resumed :: "semaphore \<Rightarrow> semaphore" where
  "acquire_resumed s = s"

text \<open>
  \<^verbatim>\<open>_wakeUpNext()\<close>: \<^verbatim>\<open>shift()\<close> removes and returns the first element, or returns
  \<^verbatim>\<open>undefined\<close> on an empty array; a resolve function is never falsy. The call
  \<^verbatim>\<open>next()\<close> is the function's effect outside the object: the result holds the handle
  that was invoked, if any.
\<close>

definition wakeUpNext :: "semaphore \<Rightarrow> handle option \<times> semaphore" where
  "wakeUpNext s =
     (case s_waiters s of
        [] \<Rightarrow> (None, s)
      | next # rest \<Rightarrow>
          (Some next, s\<lparr>s_waiters := rest, s_value := num_sub (s_value s) (Finite 1)\<rparr>))"

text \<open>\<^verbatim>\<open>release()\<close>: \<^verbatim>\<open>this._value += 1; this._wakeUpNext()\<close>\<close>

definition release :: "semaphore \<Rightarrow> handle option \<times> semaphore" where
  "release s = wakeUpNext (s\<lparr>s_value := num_add (s_value s) (Finite 1)\<rparr>)"

text \<open>The handles invoked by \<open>k\<close> calls of \<^verbatim>\<open>release\<close> in a row, and the state after them.\<close>

fun releases :: "nat \<Rightarrow> semaphore \<Rightarrow> handle list \<times> semaphore" where
  "releases 0 s = ([], s)"
| "releases (Suc k) s =
     (let (woken, s') = release s; (hs, s'') = releases k s'
      in ((case woken of None \<Rightarrow> [] | Some h \<Rightarrow> [h]) @ hs, s''))"

subsection \<open>Callers, promises and the event loop\<close>

text \<open>
  The program runs on one thread: a call runs to its end or to its next \<^verbatim>\<open>await\<close>
  before anything else runs. An execution is therefore a sequence of such uninterrupted
  pieces, each applied to the state left by the one before. The world holds the
  semaphore and what the pieces do outside it:
  \<^item> \<open>fresh\<close>: the number of promises created by \<^verbatim>\<open>acquire\<close> so far, which is the handle
    of the next one;
  \<^item> \<open>resolved\<close>: the handles invoked by \<^verbatim>\<open>_wakeUpNext\<close>, in the order of the calls
    \<^verbatim>\<open>next()\<close>;
  \<^item> \<open>runs\<close>: for every call of \<^verbatim>\<open>run\<close>, in the order of the calls, the point where it
    stands;
  \<^item> \<open>trace\<close>: the calls of \<^verbatim>\<open>acquire\<close>, of a task and of \<^verbatim>\<open>release\<close> made so far, each
    with who made it.
\<close>

text \<open>
  What \<^verbatim>\<open>task()\<close> does when \<^verbatim>\<open>run\<close> calls it: it throws, or it returns a promise that
  is awaited. What the promise of a task, and of \<^verbatim>\<open>run\<close>, settles to.
\<close>

datatype 'e task_call = Threw 'e | Promised

datatype ('e, 'a) outcome = Fulfilled 'a | Rejected 'e

text \<open>
  A call of \<^verbatim>\<open>run\<close> stands at \<^verbatim>\<open>await this.acquire()\<close>, at \<^verbatim>\<open>await task()\<close>, or has
  settled.
\<close>

datatype ('e, 'a) run_pc =
  AwaitAcquire acquire_status | AwaitTask | Settled "('e, 'a) outcome"

datatype caller = External | ByRun nat

datatype call = AcquireCall | TaskCall | ReleaseCall

record ('e, 'a) world =
  sem :: semaphore
  fresh :: handle
  resolved :: "handle list"
  runs :: "('e, 'a) run_pc list"
  trace :: "(caller \<times> call) list"

definition init :: "semaphore \<Rightarrow> ('e, 'a) world" where
  "init s = \<lparr>sem = s, fresh = 0, resolved = [], runs = [], trace = []\<rparr>"

text \<open>A call of \<^verbatim>\<open>locked()\<close>: the answer and the world after it.\<close>

definition call_locked :: "('e, 'a) world \<Rightarrow> bool \<times> ('e, 'a) world" where
  "call_locked w = (locked (sem w), w)"

text \<open>
  A call of \<^verbatim>\<open>acquire()\<close> by \<open>who\<close>, up to its return or its \<^verbatim>\<open>await\<close>. A promise is
  created on the second path only.
\<close>

definition call_acquire :: "caller \<Rightarrow> ('e, 'a) world \<Rightarrow> acquire_status \<times> ('e, 'a) world" where
  "call_acquire who w =
     (let (st, s') = acquire (fresh w) (sem w)
      in (st, w\<lparr>sem := s',
                fresh := (case st of Returned \<Rightarrow> fresh w | Awaiting _ \<Rightarrow> Suc (fresh w)),
                trace := trace w @ [(who, AcquireCall)]\<rparr>))"

text \<open>A call of \<^verbatim>\<open>release()\<close> by \<open>who\<close>.\<close>

definition call_release :: "caller \<Rightarrow> ('e, 'a) world \<Rightarrow> ('e, 'a) world" where
  "call_release who w =
     (let (woken, s') = release (sem w)
      in w\<lparr>sem := s',
            resolved := resolved w @ (case woken of None \<Rightarrow> [] | Some h \<Rightarrow> [h]),
            trace := trace w @ [(who, ReleaseCall)]\<rparr>)"

text \<open>
  \<^verbatim>\<open>run(task)\<close> in three pieces. \<open>run_start\<close> is the call itself, up to
  \<^verbatim>\<open>await this.acquire()\<close>. \<open>run_try\<close> is the piece after that \<^verbatim>\<open>await\<close>: \<^verbatim>\<open>task()\<close> is
  called inside \<^verbatim>\<open>try\<close>; when the call throws, the \<^verbatim>\<open>finally\<close> block runs at once.
  \<open>run_finally\<close> is the \<^verbatim>\<open>finally\<close> block and the end of the function: \<^verbatim>\<open>release()\<close>,
  then the promise of \<^verbatim>\<open>run\<close> settles to what the task settled to.
\<close>

definition run_start :: "('e, 'a) world \<Rightarrow> ('e, 'a) world" where
  "run_start w =
     (let i = length (runs w); (st, w') = call_acquire (ByRun i) w
      in w'\<lparr>runs := runs w' @ [AwaitAcquire st]\<rparr>)"

definition run_finally :: "nat \<Rightarrow> ('e, 'a) outcome \<Rightarrow> ('e, 'a) world \<Rightarrow> ('e, 'a) world" where
  "run_finally i r w =
     (let w' = call_release (ByRun i) w in w'\<lparr>runs := (runs w')[i := Settled r]\<rparr>)"

definition run_try :: "nat \<Rightarrow> 'e task_call \<Rightarrow> ('e, 'a) world \<Rightarrow> ('e, 'a) world" where
  "run_try i c w =
     (let w' = w\<lparr>trace := trace w @ [(ByRun i, TaskCall)]\<rparr>
      in case c of
           Threw e \<Rightarrow> run_finally i (Rejected e) w'
         | Promised \<Rightarrow> w'\<lparr>runs := (runs w')[i := AwaitTask]\<rparr>)"

text \<open>
  The promise of an \<^verbatim>\<open>acquire\<close> call is settled when the call has returned, or when the
  handle it awaits has been invoked and the rest of \<^verbatim>\<open>acquire\<close> has run.
\<close>

fun acquire_settled :: "handle list \<Rightarrow> acquire_status \<Rightarrow> bool" where
  "acquire_settled hs Returned = True"
| "acquire_settled hs (Awaiting h) = (h \<in> set hs)"

fun acquire_rest :: "acquire_status \<Rightarrow> semaphore \<Rightarrow> semaphore" where
  "acquire_rest Returned s = s"
| "acquire_rest (Awaiting h) s = acquire_resumed s"

text \<open>
  The pieces an execution is made of: a call of \<^verbatim>\<open>locked\<close>, \<^verbatim>\<open>acquire\<close> or \<^verbatim>\<open>release\<close>
  by any code (the body of a task included), a call of \<^verbatim>\<open>run\<close>, the continuation of
  the \<open>i\<close>-th \<^verbatim>\<open>run\<close> after its \<^verbatim>\<open>acquire\<close> (with what its task does when called), and the
  continuation of the \<open>i\<close>-th \<^verbatim>\<open>run\<close> when its task settles (with the outcome). A
  continuation that cannot run yet, or a number that is no call of \<^verbatim>\<open>run\<close>, leaves the
  world as it is.
\<close>

datatype ('e, 'a) op =
    OpLocked
  | OpAcquire
  | OpRelease
  | OpRun
  | OpRunResume nat "'e task_call"
  | OpTaskSettle nat "('e, 'a) outcome"

fun step :: "('e, 'a) op \<Rightarrow> ('e, 'a) world \<Rightarrow> ('e, 'a) world" where
  "step OpLocked w = snd (call_locked w)"
| "step OpAcquire w = snd (call_acquire External w)"
| "step OpRelease w = call_release External w"
| "step OpRun w = run_start w"
| "step (OpRunResume i c) w =
     (if i < length (runs w) then
        (case runs w ! i of
           AwaitAcquire st \<Rightarrow>
             if acquire_settled (resolved w) st
             then run_try i c (w\<lparr>sem := acquire_rest st (sem w)\<rparr>)
             else w
         | _ \<Rightarrow> w)
      else w)"
| "step (OpTaskSettle i r) w =
     (if i < length (runs w) \<and> runs w ! i = AwaitTask then run_finally i r w else w)"

fun exec :: "('e, 'a) op list \<Rightarrow> ('e, 'a) world \<Rightarrow> ('e, 'a) world" where
  "exec [] w = w"
| "exec (x # xs) w = exec xs (step x w)"

text \<open>The calls made by the \<open>i\<close>-th \<^verbatim>\<open>run\<close>, in order, and the number of calls of one kind.\<close>

definition run_calls :: "nat \<Rightarrow> (caller \<times> call) list \<Rightarrow> call list" where
  "run_calls i tr = map snd (filter (\<lambda>e. fst e = ByRun i) tr)"

definition count_calls :: "call \<Rightarrow> (caller \<times> call) list \<Rightarrow> nat" where
  "count_calls c tr = length (filter (\<lambda>e. snd e = c) tr)"

text \<open>The calls a \<^verbatim>\<open>run\<close> has made when it stands at a given point.\<close>

fun calls_at :: "('e, 'a) run_pc \<Rightarrow> call list" where
  "calls_at (AwaitAcquire st) = [AcquireCall]"
| "calls_at AwaitTask = [AcquireCall, TaskCall]"
| "calls_at (Settled r) = [AcquireCall, TaskCall, ReleaseCall]"

subsection \<open>Invariants of the world\<close>

text \<open>A queue that is not empty goes with a counter at zero.\<close>

definition queue_inv :: "('e, 'a) world \<Rightarrow> bool" where
  "queue_inv w = (s_waiters (sem w) \<noteq> [] \<longrightarrow> s_value (sem w) = Finite 0)"

text \<open>The counter is the double of a natural number.\<close>

definition natural_inv :: "('e, 'a) world \<Rightarrow> bool" where
  "natural_inv w = (\<exists>k. 0 \<le> k \<and> s_value (sem w) = of_integer k)"

text \<open>
  The handles invoked so far, followed by the handles still queued, are the handles
  created so far, in the order of their creation.
\<close>

definition fifo_inv :: "('e, 'a) world \<Rightarrow> bool" where
  "fifo_inv w = (resolved w @ s_waiters (sem w) = [0..<fresh w])"

text \<open>
  The acquires that have been granted (those called, less those still queued) and not
  yet given back by a release.
\<close>

definition outstanding :: "('e, 'a) world \<Rightarrow> int" where
  "outstanding w =
     int (count_calls AcquireCall (trace w)) - int (length (s_waiters (sem w)))
       - int (count_calls ReleaseCall (trace w))"

text \<open>
  An execution without over-release: at no point have more releases been called than
  acquires granted.
\<close>

fun no_over_release :: "('e, 'a) op list \<Rightarrow> ('e, 'a) world \<Rightarrow> bool" where
  "no_over_release [] w = (0 \<le> outstanding w)"
| "no_over_release (x # xs) w = (0 \<le> outstanding w \<and> no_over_release xs (step x w))"

text \<open>
  With a first value \<open>n\<close>, the counter is \<open>n\<close> less the outstanding acquires, and a queue
  that is not empty goes with a counter at zero.
\<close>

definition conserved :: "int \<Rightarrow> ('e, 'a) world \<Rightarrow> bool" where
  "conserved n w =
     (0 \<le> outstanding w \<and> outstanding w \<le> n \<and>
      s_value (sem w) = Finite (of_int (n - outstanding w)) \<and>
      (s_waiters (sem w) \<noteq> [] \<longrightarrow> s_value (sem w) = Finite 0))"

text \<open>Every \<^verbatim>\<open>run\<close> has made the calls of the point where it stands, and no other.\<close>

definition runs_inv :: "('e, 'a) world \<Rightarrow> bool" where
  "runs_inv w =
     (\<forall>i. run_calls i (trace w) = (if i < length (runs w) then calls_at (runs w ! i) else []))"

section \<open>Properties\<close>

subsection \<open>Rounding\<close>

lemma bits_pos: "0 < n \<Longrightarrow> bits n = Suc (bits (n div 2))"
  by (subst bits.simps) simp

lemma bits_nonpos: "n \<le> 0 \<Longrightarrow> bits n = 0"
  by (subst bits.simps) simp

lemma bits_bounds: "0 < n \<Longrightarrow> 2 ^ (bits n - 1) \<le> n \<and> n < 2 ^ bits n"
proof (induction n rule: bits.induct)
  case (1 n)
  show ?case
  proof (cases "n div 2 \<le> 0")
    case True
    with \<open>0 < n\<close> have "n = 1" by linarith
    then show ?thesis by (simp add: bits_pos bits_nonpos)
  next
    case False
    then have m: "0 < n div 2" by simp
    with 1 have ih: "2 ^ (bits (n div 2) - 1) \<le> n div 2" "n div 2 < 2 ^ bits (n div 2)"
      by simp_all
    from m have b: "bits (n div 2) = Suc (bits (n div 2) - 1)"
      by (simp add: bits_pos)
    have "(2::int) ^ bits (n div 2) = 2 * 2 ^ (bits (n div 2) - 1)"
      by (subst b) simp
    with ih have "2 ^ bits (n div 2) \<le> 2 * (n div 2)" by simp
    also have "\<dots> \<le> n" by simp
    finally have lo: "2 ^ bits (n div 2) \<le> n" .
    from ih have "n div 2 + 1 \<le> 2 ^ bits (n div 2)" by simp
    then have "2 * (n div 2) + 2 \<le> 2 * 2 ^ bits (n div 2)" by simp
    moreover have "n < 2 * (n div 2) + 2" by linarith
    ultimately have hi: "n < 2 * 2 ^ bits (n div 2)" by linarith
    from lo hi \<open>0 < n\<close> show ?thesis by (simp add: bits_pos)
  qed
qed

lemma ilog2_int: "1 \<le> k \<Longrightarrow> ilog2 (of_int k) = int (bits k) - 1"
proof -
  assume k: "1 \<le> k"
  then have b: "2 ^ (bits k - 1) \<le> k" using bits_bounds [of k] by simp
  from k have p: "1 \<le> bits k" by (simp add: bits_pos)
  have one: "bits 1 = 1" by (simp add: bits_pos bits_nonpos)
  from p have "pow2 (int (bits k) - 1) = of_int (2 ^ (bits k - 1))"
    by (simp add: pow2_def nat_diff_distrib)
  also from b have "\<dots> \<le> of_int k" by (simp only: of_int_le_iff)
  finally show ?thesis
    by (simp add: ilog2_def one)
qed

lemma round_even_int: "round_even (of_int m) = m"
  by (simp add: round_even_def)

lemma round_even_ge: "\<lfloor>y\<rfloor> \<le> round_even y"
  by (simp add: round_even_def Let_def)

lemma pow2_pos: "0 < pow2 e"
  by (simp add: pow2_def)

lemma round_pos_exact:
  assumes "ilog2 x = e" "- 1022 \<le> e" "x = of_int m * pow2 (e - 52)" "\<not> pow2 1024 \<le> x"
  shows "round_pos x = Finite x"
proof -
  from pow2_pos [of "e - 52"] assms(3) have "x / pow2 (e - 52) = of_int m" by simp
  then have "round_even (x / pow2 (e - 52)) = m" by (simp only: round_even_int)
  with assms show ?thesis
    by (simp add: round_pos_def Let_def max_def)
qed

lemma round_pos_small:
  assumes "1 \<le> k" "k \<le> 2 ^ 53"
  shows "round_pos (of_int k) = Finite (of_int k)"
proof -
  let ?e = "int (bits k) - 1"
  from assms have e: "ilog2 (of_int k) = ?e" by (simp add: ilog2_int)
  from assms have p: "1 \<le> bits k" by (simp add: bits_pos)
  from assms have "0 < k" by simp
  note bb = bits_bounds [OF this]
  from assms bb have "(2::int) ^ (bits k - 1) \<le> 2 ^ 53" by linarith
  then have le: "bits k - 1 \<le> 53" by (rule power_le_imp_le_exp [rotated]) simp
  have big: "\<not> pow2 1024 \<le> (of_int k :: rat)"
  proof -
    have "(of_int k :: rat) \<le> of_int (2 ^ 53)" using assms by (simp only: of_int_le_iff)
    also have "\<dots> < pow2 1024" by (simp add: pow2_def)
    finally show ?thesis by simp
  qed
  have "\<exists>m. (of_int k :: rat) = of_int m * pow2 (?e - 52)"
  proof (cases "bits k - 1 = 53")
    case True
    with bb assms have "k = 2 ^ 53" by simp
    moreover from True p have "?e - 52 = 1" by simp
    ultimately have "(of_int k :: rat) = of_int (2 ^ 52) * pow2 (?e - 52)"
      by (simp add: pow2_def)
    then show ?thesis ..
  next
    case False
    with le have lt: "bits k - 1 \<le> 52" by simp
    define n where "n = 52 - (bits k - 1)"
    from lt p have "pow2 (?e - 52) = 1 / 2 ^ n"
      by (cases "bits k - 1 = 52") (auto simp: pow2_def n_def nat_diff_distrib)
    then have "(of_int k :: rat) = of_int (k * 2 ^ n) * pow2 (?e - 52)" by simp
    then show ?thesis ..
  qed
  then obtain m where "(of_int k :: rat) = of_int m * pow2 (?e - 52)" ..
  from round_pos_exact [OF e _ this big] p show ?thesis by simp
qed

lemma round_pos_int:
  assumes "1 \<le> k"
  shows "round_pos (of_int k) = PosInfinity \<or>
         (\<exists>j. 1 \<le> j \<and> round_pos (of_int k) = Finite (of_int j))"
proof (cases "k \<le> 2 ^ 53")
  case True
  with assms round_pos_small [of k] show ?thesis by blast
next
  case False
  then have k: "2 ^ 53 < k" by simp
  let ?e = "int (bits k) - 1"
  from assms have e: "ilog2 (of_int k) = ?e" by (simp add: ilog2_int)
  from assms have "0 < k" by simp
  note bb = bits_bounds [OF this]
  from k bb have "(2::int) ^ 53 < 2 ^ bits k" by linarith
  then have b: "53 < bits k" by (rule power_less_imp_less_exp [rotated]) simp
  define n where "n = bits k - 53"
  from b have q: "pow2 (?e - 52) = 2 ^ n"
    by (simp add: pow2_def n_def nat_diff_distrib)
  define m where "m = round_even (of_int k / 2 ^ n)"
  from b have "bits k - 1 = n + 52" by (simp add: n_def)
  with bb have "(2::int) ^ (n + 52) \<le> k" by simp
  moreover have "(2::int) ^ n \<le> 2 ^ (n + 52)"
    by (rule power_increasing) simp_all
  ultimately have "(2::int) ^ n \<le> k" by linarith
  then have "(of_int (2 ^ n) :: rat) \<le> of_int k" by (simp only: of_int_le_iff)
  then have "(1::rat) \<le> of_int k / 2 ^ n"
    by (simp add: le_divide_eq)
  then have "1 \<le> \<lfloor>(of_int k :: rat) / 2 ^ n\<rfloor>" by (simp add: le_floor_iff)
  with round_even_ge [of "of_int k / 2 ^ n"] have m: "1 \<le> m" unfolding m_def by linarith
  have "1 * 1 \<le> m * (2::int) ^ n"
    using m by (intro mult_mono) simp_all
  then have j: "1 \<le> m * 2 ^ n" by simp
  from b have q': "pow2 (int (bits k) - 53) = 2 ^ n"
    by (simp add: pow2_def n_def nat_diff_distrib)
  from b have "round_pos (of_int k) =
      (if pow2 1024 \<le> of_int (m * 2 ^ n) then PosInfinity else Finite (of_int (m * 2 ^ n)))"
    by (simp add: round_pos_def e q' m_def Let_def)
  with j show ?thesis by auto
qed

text \<open>Integers up to \<open>2^53\<close> in magnitude are doubles.\<close>

lemma round_double_int:
  assumes "- (2 ^ 53) \<le> k" "k \<le> 2 ^ 53"
  shows "round_double (of_int k) = Finite (of_int k)"
proof -
  consider "k = 0" | "1 \<le> k" | "1 \<le> - k" by linarith
  then show ?thesis
  proof cases
    case 1
    then show ?thesis by (simp add: round_double_def)
  next
    case 2
    with assms round_pos_small [of k] show ?thesis by (simp add: round_double_def)
  next
    case 3
    with assms round_pos_small [of "- k"] show ?thesis by (simp add: round_double_def)
  qed
qed

lemma round_double_0: "round_double 0 = Finite 0"
  by (simp add: round_double_def)

lemma round_double_1: "round_double 1 = Finite 1"
  using round_double_int [of 1] by simp

lemma round_double_numeral:
  "numeral n \<le> (9007199254740992 :: int) \<Longrightarrow> round_double (numeral n) = Finite (numeral n)"
  using round_double_int [of "numeral n"] by simp

lemma round_double_neg_numeral:
  "numeral n \<le> (9007199254740992 :: int) \<Longrightarrow>
   round_double (- numeral n) = Finite (- numeral n)"
  using round_double_int [of "- numeral n"] by simp

lemmas round_simps = round_double_0 round_double_1 round_double_numeral round_double_neg_numeral

text \<open>
  The double of an integer is an integer of the same sign, or the infinity of that
  sign.
\<close>

lemma of_integer_small:
  "- (2 ^ 53) \<le> k \<Longrightarrow> k \<le> 2 ^ 53 \<Longrightarrow> of_integer k = Finite (of_int k)"
  by (simp add: of_integer_def round_double_int)

lemma of_integer_nonneg:
  assumes "0 \<le> k"
  shows "of_integer k = PosInfinity \<or>
         (\<exists>j. 0 \<le> j \<and> (1 \<le> k \<longrightarrow> 1 \<le> j) \<and> of_integer k = Finite (of_int j))"
proof (cases "k = 0")
  case True
  then have "of_integer k = Finite (of_int 0)" by (simp add: of_integer_def round_double_def)
  with True show ?thesis by force
next
  case False
  with assms have k: "1 \<le> k" by simp
  then have e: "of_integer k = round_pos (of_int k)"
    by (simp add: of_integer_def round_double_def)
  from round_pos_int [OF k] show ?thesis
  proof
    assume "round_pos (of_int k) = PosInfinity"
    with e show ?thesis by simp
  next
    assume "\<exists>j. 1 \<le> j \<and> round_pos (of_int k) = Finite (of_int j)"
    then obtain j where "1 \<le> j" "round_pos (of_int k) = Finite (of_int j)" by blast
    with e have "0 \<le> j \<and> (1 \<le> k \<longrightarrow> 1 \<le> j) \<and> of_integer k = Finite (of_int j)"
      by simp
    then show ?thesis by blast
  qed
qed

lemma of_integer_neg:
  assumes "k < 0"
  shows "of_integer k = NegInfinity \<or> (\<exists>j. j \<le> - 1 \<and> of_integer k = Finite (of_int j))"
proof -
  from assms have k: "1 \<le> - k" by simp
  from assms have e: "of_integer k = negate (round_pos (of_int (- k)))"
    by (simp add: of_integer_def round_double_def)
  from round_pos_int [OF k] show ?thesis
  proof
    assume "round_pos (of_int (- k)) = PosInfinity"
    with e show ?thesis by simp
  next
    assume "\<exists>j. 1 \<le> j \<and> round_pos (of_int (- k)) = Finite (of_int j)"
    then obtain j where "1 \<le> j" "round_pos (of_int (- k)) = Finite (of_int j)" by blast
    with e have "- j \<le> - 1 \<and> of_integer k = Finite (of_int (- j))" by simp
    then show ?thesis by blast
  qed
qed

lemma of_integer_lt_zero: "num_lt (of_integer n) (Finite 0) \<longleftrightarrow> n < 0"
proof (cases "n < 0")
  case True
  with of_integer_neg [of n] show ?thesis by auto
next
  case False
  with of_integer_nonneg [of n] show ?thesis by auto
qed

text \<open>One more and one less on an integer counter.\<close>

lemma num_add_int: "num_add (Finite (of_int k)) (Finite 1) = of_integer (k + 1)"
  by (simp add: of_integer_def)

lemma num_sub_int: "num_sub (Finite (of_int k)) (Finite 1) = of_integer (k - 1)"
  by (simp add: of_integer_def)

lemma num_add_exact:
  "- (2 ^ 53) \<le> k + 1 \<Longrightarrow> k + 1 \<le> 2 ^ 53 \<Longrightarrow>
   num_add (Finite (of_int k)) (Finite 1) = Finite (of_int (k + 1))"
  by (simp only: num_add_int of_integer_small)

lemma num_sub_exact:
  "- (2 ^ 53) \<le> k - 1 \<Longrightarrow> k - 1 \<le> 2 ^ 53 \<Longrightarrow>
   num_sub (Finite (of_int k)) (Finite 1) = Finite (of_int (k - 1))"
  by (simp only: num_sub_int of_integer_small)

lemma num_zero_round_trip: "num_sub (num_add (Finite 0) (Finite 1)) (Finite 1) = Finite 0"
  by (simp add: round_simps)

subsection \<open>Single calls\<close>

lemma num_eq_zero: "num_eq v (Finite 0) = (v = Finite 0)"
  by (cases v) auto

lemma locked_iff: "locked s = (s_value s = Finite 0 \<or> s_waiters s \<noteq> [])"
  by (simp add: locked_def num_eq_zero)

lemma release_empty:
  "s_waiters s = [] \<Longrightarrow> release s = (None, s\<lparr>s_value := num_add (s_value s) (Finite 1)\<rparr>)"
  by (simp add: release_def wakeUpNext_def)

lemma release_head:
  "s_waiters s = h # rest \<Longrightarrow>
   release s = (Some h, s\<lparr>s_waiters := rest,
                           s_value := num_sub (num_add (s_value s) (Finite 1)) (Finite 1)\<rparr>)"
  by (simp add: release_def wakeUpNext_def)

lemma release_head_zero:
  "s_waiters s = h # rest \<Longrightarrow> s_value s = Finite 0 \<Longrightarrow>
   release s = (Some h, s\<lparr>s_waiters := rest\<rparr>)"
  by (cases s) (simp add: release_head round_simps)

text \<open>
  As long as the queue holds that many waiters, \<open>k\<close> releases invoke its first \<open>k\<close>
  handles in order and leave the rest of the queue.
\<close>

lemma releases_handles:
  "k \<le> length (s_waiters s) \<Longrightarrow>
   fst (releases k s) = take k (s_waiters s) \<and>
   s_waiters (snd (releases k s)) = drop k (s_waiters s)"
proof (induction k arbitrary: s)
  case 0
  then show ?case by simp
next
  case (Suc k)
  then obtain h rest where hr: "s_waiters s = h # rest"
    by (cases "s_waiters s") auto
  let ?s' = "snd (release s)"
  from hr have r: "fst (release s) = Some h" "s_waiters ?s' = rest"
    by (simp_all add: release_head)
  with Suc.prems hr have "k \<le> length (s_waiters ?s')" by simp
  from Suc.IH [OF this] r hr show ?case
    by (simp add: split_beta)
qed

text \<open>At a counter of zero they leave the counter at zero as well.\<close>

lemma releases_take:
  "k \<le> length (s_waiters s) \<Longrightarrow> s_value s = Finite 0 \<Longrightarrow>
   releases k s = (take k (s_waiters s), s\<lparr>s_waiters := drop k (s_waiters s)\<rparr>)"
proof (induction k arbitrary: s)
  case 0
  then show ?case by simp
next
  case (Suc k)
  then obtain h rest where hr: "s_waiters s = h # rest"
    by (cases "s_waiters s") auto
  with Suc.prems have "k \<le> length (s_waiters (s\<lparr>s_waiters := rest\<rparr>))"
    and "s_value (s\<lparr>s_waiters := rest\<rparr>) = Finite 0" by simp_all
  from Suc.IH [OF this] hr Suc.prems show ?case
    by (simp add: release_head_zero)
qed

text \<open>
  With nobody waiting, \<open>j\<close> releases invoke nothing and add \<open>j\<close> to an integer counter
  that stays within \<open>2^53\<close>.
\<close>

lemma releases_empty:
  "s_waiters s = [] \<Longrightarrow> s_value s = Finite (of_int k) \<Longrightarrow>
   - (2 ^ 53) \<le> k \<Longrightarrow> k + int j \<le> 2 ^ 53 \<Longrightarrow>
   releases j s = ([], s\<lparr>s_value := Finite (of_int (k + int j))\<rparr>)"
proof (induction j arbitrary: s k)
  case 0
  then show ?case by simp
next
  case (Suc j)
  let ?s' = "s\<lparr>s_value := Finite (of_int (k + 1))\<rparr>"
  from Suc.prems have a: "num_add (Finite (of_int k)) (Finite 1) = Finite (of_int (k + 1))"
    by (intro num_add_exact) simp_all
  have "releases j ?s' = ([], ?s'\<lparr>s_value := Finite (of_int (k + 1 + int j))\<rparr>)"
    using Suc.prems by (intro Suc.IH) simp_all
  with Suc.prems a show ?case
    by (simp add: release_empty add.assoc add.commute del: num_add.simps)
qed

subsection \<open>What a piece of an execution does to the semaphore\<close>

lemma acquire_rest_id: "acquire_rest st s = s"
  by (cases st) (simp_all add: acquire_resumed_def)

lemma sem_call_acquire: "sem (snd (call_acquire who w)) = snd (acquire (fresh w) (sem w))"
  by (simp add: call_acquire_def split: prod.splits)

lemma sem_call_release: "sem (call_release who w) = snd (release (sem w))"
  by (simp add: call_release_def split: prod.splits)

lemma sem_run_start: "sem (run_start w) = snd (acquire (fresh w) (sem w))"
  by (simp add: run_start_def call_acquire_def split: prod.splits)

lemma sem_run_finally: "sem (run_finally i r w) = snd (release (sem w))"
  by (simp add: run_finally_def Let_def sem_call_release)

lemma sem_run_try:
  "sem (run_try i c w) = (case c of Threw e \<Rightarrow> snd (release (sem w)) | Promised \<Rightarrow> sem w)"
  by (simp add: run_try_def Let_def sem_run_finally split: task_call.splits)

text \<open>Every piece leaves the semaphore as it is, or is one acquire, or is one release.\<close>

lemma sem_step:
  "sem (step x w) = sem w \<or>
   sem (step x w) = snd (acquire (fresh w) (sem w)) \<or>
   sem (step x w) = snd (release (sem w))"
  by (cases x)
     (auto simp: call_locked_def sem_call_acquire sem_call_release sem_run_start
        sem_run_finally sem_run_try acquire_rest_id
        split: run_pc.splits task_call.splits)

lemmas call_defs = call_locked_def call_acquire_def call_release_def run_start_def run_try_def
  run_finally_def Let_def acquire_rest_id

text \<open>
  With the calls counted: a piece leaves the semaphore and the counts as they are, or
  is one call of \<^verbatim>\<open>acquire\<close>, or is one call of \<^verbatim>\<open>release\<close>.
\<close>

lemma step_effect:
  "(sem (step x w) = sem w \<and>
    count_calls AcquireCall (trace (step x w)) = count_calls AcquireCall (trace w) \<and>
    count_calls ReleaseCall (trace (step x w)) = count_calls ReleaseCall (trace w)) \<or>
   (sem (step x w) = snd (acquire (fresh w) (sem w)) \<and>
    count_calls AcquireCall (trace (step x w)) = Suc (count_calls AcquireCall (trace w)) \<and>
    count_calls ReleaseCall (trace (step x w)) = count_calls ReleaseCall (trace w)) \<or>
   (sem (step x w) = snd (release (sem w)) \<and>
    count_calls AcquireCall (trace (step x w)) = count_calls AcquireCall (trace w) \<and>
    count_calls ReleaseCall (trace (step x w)) = Suc (count_calls ReleaseCall (trace w)))"
  by (cases x)
     (auto simp: count_calls_def call_defs split: run_pc.splits task_call.splits prod.splits)

subsection \<open>The counter stays a natural number\<close>

lemma of_integer_zero_iff: "0 \<le> k \<Longrightarrow> of_integer k = Finite 0 \<longleftrightarrow> k = 0"
  using of_integer_nonneg [of k] of_integer_small [of 0] by auto

lemma natural_add:
  assumes "0 \<le> k"
  shows "\<exists>k'. 1 \<le> k' \<and> num_add (of_integer k) (Finite 1) = of_integer k'"
  using of_integer_nonneg [OF assms]
proof
  assume i: "of_integer k = PosInfinity"
  with assms of_integer_zero_iff [of k] have "1 \<le> k" by (cases "k = 0") auto
  with i show ?thesis by (intro exI [of _ k]) simp
next
  assume "\<exists>j. 0 \<le> j \<and> (1 \<le> k \<longrightarrow> 1 \<le> j) \<and> of_integer k = Finite (of_int j)"
  then obtain j where "0 \<le> j" "of_integer k = Finite (of_int j)" by blast
  then show ?thesis by (intro exI [of _ "j + 1"]) (simp add: num_add_int del: num_add.simps)
qed

lemma natural_sub:
  assumes "1 \<le> k"
  shows "\<exists>k'. 0 \<le> k' \<and> num_sub (of_integer k) (Finite 1) = of_integer k'"
proof -
  from assms have "0 \<le> k" by simp
  from of_integer_nonneg [OF this] show ?thesis
  proof
    assume "of_integer k = PosInfinity"
    with assms show ?thesis by (intro exI [of _ k]) simp
  next
    assume "\<exists>j. 0 \<le> j \<and> (1 \<le> k \<longrightarrow> 1 \<le> j) \<and> of_integer k = Finite (of_int j)"
    with assms obtain j where "1 \<le> j" "of_integer k = Finite (of_int j)" by blast
    then show ?thesis by (intro exI [of _ "j - 1"]) (simp add: num_sub_int del: num_sub.simps)
  qed
qed

lemma natural_acquire:
  assumes "0 \<le> k" "s_value s = of_integer k"
  shows "\<exists>k'. 0 \<le> k' \<and> s_value (snd (acquire h s)) = of_integer k'"
proof (cases "locked s")
  case True
  with assms show ?thesis by (auto simp: acquire_def)
next
  case False
  with assms have "k \<noteq> 0" by (auto simp: locked_iff of_integer_zero_iff)
  with assms have "1 \<le> k" by simp
  from natural_sub [OF this] False assms show ?thesis
    by (simp add: acquire_def)
qed

lemma natural_release:
  assumes "0 \<le> k" "s_value s = of_integer k"
  shows "\<exists>k'. 0 \<le> k' \<and> s_value (snd (release s)) = of_integer k'"
proof -
  from natural_add [OF assms(1)] obtain k' where
    k': "1 \<le> k'" "num_add (of_integer k) (Finite 1) = of_integer k'" by blast
  show ?thesis
  proof (cases "s_waiters s")
    case Nil
    with k' assms have "s_value (snd (release s)) = of_integer k'"
      by (simp add: release_empty)
    with k' show ?thesis by (intro exI [of _ k']) simp
  next
    case (Cons h rest)
    with k' assms have "s_value (snd (release s)) = num_sub (of_integer k') (Finite 1)"
      by (simp add: release_head)
    with natural_sub [OF k'(1)] show ?thesis by simp
  qed
qed

lemma natural_step: "natural_inv w \<Longrightarrow> natural_inv (step x w)"
  unfolding natural_inv_def
  using sem_step [of x w] natural_acquire [of _ "sem w" "fresh w"] natural_release [of _ "sem w"]
  by auto

lemma natural_exec: "natural_inv w \<Longrightarrow> natural_inv (exec xs w)"
  by (induction xs arbitrary: w) (simp_all add: natural_step)

lemma natural_not_negative: "0 \<le> k \<Longrightarrow> \<not> num_lt (of_integer k) (Finite 0)"
  by (simp add: of_integer_lt_zero)

subsection \<open>Waiters only at zero\<close>

lemma queue_acquire:
  "s_waiters s \<noteq> [] \<longrightarrow> s_value s = Finite 0 \<Longrightarrow>
   s_waiters (snd (acquire h s)) \<noteq> [] \<longrightarrow> s_value (snd (acquire h s)) = Finite 0"
  by (auto simp: acquire_def locked_iff)

lemma queue_release:
  "s_waiters s \<noteq> [] \<longrightarrow> s_value s = Finite 0 \<Longrightarrow>
   s_waiters (snd (release s)) \<noteq> [] \<longrightarrow> s_value (snd (release s)) = Finite 0"
  by (cases "s_waiters s") (auto simp: release_empty release_head_zero)

lemma queue_step: "queue_inv w \<Longrightarrow> queue_inv (step x w)"
  unfolding queue_inv_def
  using sem_step [of x w] queue_acquire [of "sem w" "fresh w"] queue_release [of "sem w"]
  by auto

lemma queue_exec: "queue_inv w \<Longrightarrow> queue_inv (exec xs w)"
  by (induction xs arbitrary: w) (simp_all add: queue_step)

lemma constructor_Inr:
  "constructor v = Inr s \<Longrightarrow> \<not> num_lt v (Finite 0) \<and> s = \<lparr>s_value = v, s_waiters = []\<rparr>"
  by (auto simp: constructor_def split: if_splits)

subsection \<open>Handles are invoked in the order of their creation\<close>

lemma fifo_step: "fifo_inv w \<Longrightarrow> fifo_inv (step x w)"
  by (cases x)
     (auto simp: fifo_inv_def call_defs acquire_def release_def wakeUpNext_def
        split: list.splits run_pc.splits task_call.splits prod.splits)

lemma fifo_exec: "fifo_inv w \<Longrightarrow> fifo_inv (exec xs w)"
  by (induction xs arbitrary: w) (simp_all add: fifo_step)

lemma fresh_step: "fresh w \<le> fresh (step x w)"
  by (cases x)
     (auto simp: call_defs acquire_def release_def wakeUpNext_def
        split: list.splits run_pc.splits task_call.splits prod.splits)

lemma fresh_exec: "fresh w \<le> fresh (exec xs w)"
proof (induction xs arbitrary: w)
  case Nil
  then show ?case by simp
next
  case (Cons x xs)
  from fresh_step [of w x] Cons [of "step x w"] show ?case by simp
qed

subsection \<open>Conservation\<close>

lemma outstanding_nonneg: "no_over_release xs w \<Longrightarrow> 0 \<le> outstanding w"
  by (cases xs) simp_all

lemma conservedI:
  "0 \<le> outstanding w \<Longrightarrow> outstanding w \<le> n \<Longrightarrow>
   s_value (sem w) = Finite (of_int (n - outstanding w)) \<Longrightarrow>
   (s_waiters (sem w) \<noteq> [] \<Longrightarrow> s_value (sem w) = Finite 0) \<Longrightarrow> conserved n w"
  by (simp add: conserved_def)

lemma conserved_step:
  assumes c: "conserved n w" and n: "n \<le> 2 ^ 53" and o: "0 \<le> outstanding (step x w)"
  shows "conserved n (step x w)"
proof -
  let ?s = "sem w" and ?o = "outstanding w"
  from c have lo: "0 \<le> ?o" and hi: "?o \<le> n"
    and v: "s_value ?s = Finite (of_int (n - ?o))"
    and q: "s_waiters ?s \<noteq> [] \<longrightarrow> s_value ?s = Finite 0"
    unfolding conserved_def by blast+
  from step_effect [of x w] show ?thesis
  proof (elim disjE conjE)
    assume e: "sem (step x w) = ?s"
      "count_calls AcquireCall (trace (step x w)) = count_calls AcquireCall (trace w)"
      "count_calls ReleaseCall (trace (step x w)) = count_calls ReleaseCall (trace w)"
    then have o': "outstanding (step x w) = ?o" by (simp add: outstanding_def)
    show ?thesis
      proof (rule conservedI)
        show "0 \<le> outstanding (step x w)" by (rule o)
        show "outstanding (step x w) \<le> n" using lo hi by (simp add: o')
        show "s_value (sem (step x w)) = Finite (of_int (n - outstanding (step x w)))"
          using v by (simp add: o' e)
        show "s_value (sem (step x w)) = Finite 0" if "s_waiters (sem (step x w)) \<noteq> []"
          using that q by (simp add: e)
      qed
  next
    assume e: "sem (step x w) = snd (acquire (fresh w) ?s)"
      "count_calls AcquireCall (trace (step x w)) = Suc (count_calls AcquireCall (trace w))"
      "count_calls ReleaseCall (trace (step x w)) = count_calls ReleaseCall (trace w)"
    show ?thesis
    proof (cases "locked ?s")
      case True
      with q have z: "s_value ?s = Finite 0" by (auto simp: locked_iff)
      from True e have s': "sem (step x w) = ?s\<lparr>s_waiters := s_waiters ?s @ [fresh w]\<rparr>"
        by (simp add: acquire_def)
      from s' e(2,3) have o': "outstanding (step x w) = ?o" by (simp add: outstanding_def)
      show ?thesis
      proof (rule conservedI)
        show "0 \<le> outstanding (step x w)" by (rule o)
        show "outstanding (step x w) \<le> n" using lo hi by (simp add: o')
        show "s_value (sem (step x w)) = Finite (of_int (n - outstanding (step x w)))"
          using v by (simp add: o' s')
        show "s_value (sem (step x w)) = Finite 0" if "s_waiters (sem (step x w)) \<noteq> []"
          using z by (simp add: s')
      qed
    next
      case False
      then have w0: "s_waiters ?s = []" and "s_value ?s \<noteq> Finite 0"
        by (simp_all add: locked_iff)
      with v have "n - ?o \<noteq> 0" by auto
      with hi have p: "1 \<le> n - ?o" by simp
      with n lo have "num_sub (Finite (of_int (n - ?o))) (Finite 1) = Finite (of_int (n - ?o - 1))"
        by (intro num_sub_exact) simp_all
      with False e v have s': "sem (step x w) = ?s\<lparr>s_value := Finite (of_int (n - ?o - 1))\<rparr>"
        by (simp add: acquire_def del: num_sub.simps)
      from s' e(2,3) w0 have o': "outstanding (step x w) = ?o + 1" by (simp add: outstanding_def)
      show ?thesis
      proof (rule conservedI)
        show "0 \<le> outstanding (step x w)" by (rule o)
        show "outstanding (step x w) \<le> n" using lo hi p by (simp add: o')
        show "s_value (sem (step x w)) = Finite (of_int (n - outstanding (step x w)))"
          by (simp add: o' s' algebra_simps)
        show "s_value (sem (step x w)) = Finite 0" if "s_waiters (sem (step x w)) \<noteq> []"
          using that w0 by (simp add: s')
      qed
    qed
  next
    assume e: "sem (step x w) = snd (release ?s)"
      "count_calls AcquireCall (trace (step x w)) = count_calls AcquireCall (trace w)"
      "count_calls ReleaseCall (trace (step x w)) = Suc (count_calls ReleaseCall (trace w))"
    show ?thesis
    proof (cases "s_waiters ?s")
      case Nil
      from Nil e(1) have "s_waiters (sem (step x w)) = []"
        by (simp add: release_empty)
      with Nil e(2,3) have o': "outstanding (step x w) = ?o - 1"
        by (simp add: outstanding_def)
      with o have p: "1 \<le> ?o" by simp
      with n hi have "num_add (Finite (of_int (n - ?o))) (Finite 1) = Finite (of_int (n - ?o + 1))"
        by (intro num_add_exact) simp_all
      with e Nil v have s': "sem (step x w) = ?s\<lparr>s_value := Finite (of_int (n - ?o + 1))\<rparr>"
        by (simp add: release_empty del: num_add.simps)
      show ?thesis
      proof (rule conservedI)
        show "0 \<le> outstanding (step x w)" by (rule o)
        show "outstanding (step x w) \<le> n" using lo hi p by (simp add: o')
        show "s_value (sem (step x w)) = Finite (of_int (n - outstanding (step x w)))"
          by (simp add: o' s' algebra_simps)
        show "s_value (sem (step x w)) = Finite 0" if "s_waiters (sem (step x w)) \<noteq> []"
          using that Nil by (simp add: s')
      qed
    next
      case (Cons h rest)
      with q have z: "s_value ?s = Finite 0" by simp
      with e Cons have s': "sem (step x w) = ?s\<lparr>s_waiters := rest\<rparr>"
        by (simp add: release_head_zero)
      from s' e(2,3) Cons have o': "outstanding (step x w) = ?o"
        by (simp add: outstanding_def)
      show ?thesis
      proof (rule conservedI)
        show "0 \<le> outstanding (step x w)" by (rule o)
        show "outstanding (step x w) \<le> n" using lo hi by (simp add: o')
        show "s_value (sem (step x w)) = Finite (of_int (n - outstanding (step x w)))"
          using v by (simp add: o' s')
        show "s_value (sem (step x w)) = Finite 0" if "s_waiters (sem (step x w)) \<noteq> []"
          using z by (simp add: s')
      qed
    qed
  qed
qed

lemma conserved_exec:
  "conserved n w \<Longrightarrow> n \<le> 2 ^ 53 \<Longrightarrow> no_over_release xs w \<Longrightarrow> conserved n (exec xs w)"
proof (induction xs arbitrary: w)
  case Nil
  then show ?case by simp
next
  case (Cons x xs)
  from Cons.prems have d: "no_over_release xs (step x w)" by simp
  from conserved_step [OF Cons.prems(1,2) outstanding_nonneg [OF d]] Cons.IH Cons.prems(2) d
  show ?case by simp
qed

subsection \<open>The calls of a run\<close>

lemma run_calls_simps:
  "run_calls i [] = []"
  "run_calls i ((who, c) # tr) = (if who = ByRun i then [c] else []) @ run_calls i tr"
  "run_calls i (tr @ tr') = run_calls i tr @ run_calls i tr'"
  by (simp_all add: run_calls_def)

lemma runs_step: "runs_inv w \<Longrightarrow> runs_inv (step x w)"
  by (cases x)
     (auto simp: runs_inv_def run_calls_simps call_defs nth_append nth_list_update
        split: list.splits run_pc.splits task_call.splits prod.splits)

lemma runs_exec: "runs_inv w \<Longrightarrow> runs_inv (exec xs w)"
  by (induction xs arbitrary: w) (simp_all add: runs_step)


text \<open>A call that finds the semaphore locked is queued on the next handle.\<close>

lemma fresh_acquire_locked:
  "locked (sem w) \<Longrightarrow> x = OpAcquire \<or> x = OpRun \<Longrightarrow>
   fresh (step x w) = Suc (fresh w) \<and>
   s_waiters (sem (step x w)) = s_waiters (sem w) @ [fresh w]"
  by (auto simp: call_defs acquire_def)

subsection \<open>Splitting an interval\<close>

lemma upt_prefix: "xs @ ys = [0..<f] \<Longrightarrow> xs = [0..<length xs]"
proof -
  assume e: "xs @ ys = [0..<f]"
  then have "length xs \<le> f"
    by (metis diff_zero length_append length_upt le_add1)
  moreover from e have "take (length xs) (xs @ ys) = take (length xs) [0..<f]" by simp
  ultimately show ?thesis by (simp add: take_upt)
qed

lemma upt_split: "i \<le> j \<Longrightarrow> j \<le> k \<Longrightarrow> [i..<k] = [i..<j] @ [j..<k]"
  using upt_add_eq_append [of i j "k - j"] by simp

lemma upt_split2:
  assumes "a < b" "b < f"
  shows "[0..<f] = [0..<a] @ a # [Suc a..<b] @ b # [Suc b..<f]"
proof -
  from assms have "[0..<f] = [0..<a] @ [a..<f]"
    by (intro upt_split) simp_all
  also from assms have "[a..<f] = a # [Suc a..<f]"
    by (simp add: upt_conv_Cons)
  also from assms have "[Suc a..<f] = [Suc a..<b] @ [b..<f]"
    by (intro upt_split) simp_all
  also from assms have "[b..<f] = b # [Suc b..<f]"
    by (simp add: upt_conv_Cons)
  finally show ?thesis .
qed

subsection \<open>The pieces of a run\<close>

lemma run_not_granted:
  "i < length (runs w) \<Longrightarrow> runs w ! i = AwaitAcquire (Awaiting h) \<Longrightarrow>
   h \<notin> set (resolved w) \<Longrightarrow> step (OpRunResume i tc) w = w"
  by simp

lemma granted_settled:
  "st = Returned \<or> (\<exists>h. st = Awaiting h \<and> h \<in> set hs) \<Longrightarrow> acquire_settled hs st"
  by auto

lemma run_settle:
  assumes "i < length (runs w)" "runs w ! i = AwaitTask"
    "run_calls i (trace w) = calls_at (runs w ! i)"
  shows "runs (step (OpTaskSettle i r) w) ! i = Settled r \<and>
         run_calls i (trace (step (OpTaskSettle i r) w)) = [AcquireCall, TaskCall, ReleaseCall] \<and>
         sem (step (OpTaskSettle i r) w) = snd (release (sem w))"
  using assms by (simp add: call_defs run_calls_simps split: prod.splits)

lemma run_resume_threw:
  assumes "i < length (runs w)" "runs w ! i = AwaitAcquire st" "acquire_settled (resolved w) st"
    "run_calls i (trace w) = calls_at (runs w ! i)"
  shows "runs (step (OpRunResume i (Threw e)) w) ! i = Settled (Rejected e) \<and>
         run_calls i (trace (step (OpRunResume i (Threw e)) w))
           = [AcquireCall, TaskCall, ReleaseCall] \<and>
         sem (step (OpRunResume i (Threw e)) w) = snd (release (sem w))"
  using assms by (simp add: call_defs run_calls_simps split: prod.splits)

lemma run_resume_promised:
  assumes "i < length (runs w)" "runs w ! i = AwaitAcquire st" "acquire_settled (resolved w) st"
  shows "runs (step (OpRunResume i Promised) w) ! i = AwaitTask \<and>
         trace (step (OpRunResume i Promised) w) = trace w @ [(ByRun i, TaskCall)] \<and>
         sem (step (OpRunResume i Promised) w) = sem w"
  using assms by (simp add: call_defs split: prod.splits)

text \<open>
  A run alone on a semaphore that is not locked: one is taken from the counter, then
  one is added to the result.
\<close>

lemma run_alone:
  assumes "\<not> locked (sem w)"
  shows "sem (exec [OpRun, OpRunResume (length (runs w)) Promised,
                    OpTaskSettle (length (runs w)) r] w)
           = (sem w)\<lparr>s_value := num_add (num_sub (s_value (sem w)) (Finite 1)) (Finite 1)\<rparr> \<and>
         runs (exec [OpRun, OpRunResume (length (runs w)) Promised,
                     OpTaskSettle (length (runs w)) r] w) ! length (runs w) = Settled r \<and>
         sem (exec [OpRun, OpRunResume (length (runs w)) (Threw e)] w)
           = (sem w)\<lparr>s_value := num_add (num_sub (s_value (sem w)) (Finite 1)) (Finite 1)\<rparr> \<and>
         runs (exec [OpRun, OpRunResume (length (runs w)) (Threw e)] w) ! length (runs w)
           = Settled (Rejected e)"
  using assms
  by (simp add: call_defs acquire_def locked_iff release_def wakeUpNext_def)

lemma there_and_back:
  assumes "- (2 ^ 53) < k" "k \<le> 2 ^ 53"
  shows "num_add (num_sub (Finite (of_int k)) (Finite 1)) (Finite 1) = Finite (of_int k)"
proof -
  from assms have "num_sub (Finite (of_int k)) (Finite 1) = Finite (of_int (k - 1))"
    by (intro num_sub_exact) simp_all
  moreover from assms have "num_add (Finite (of_int (k - 1))) (Finite 1) = Finite (of_int (k - 1 + 1))"
    by (intro num_add_exact) simp_all
  ultimately show ?thesis by simp
qed

subsection \<open>Evaluation\<close>

text \<open>The first integers that are not doubles, and one half.\<close>

lemma round_past_limit: "round_double 9007199254740993 = Finite 9007199254740992"
  by code_simp

lemma round_at_limit: "round_double 9007199254740994 = Finite 9007199254740994"
  by code_simp

lemma round_minus_half: "round_double (- (1 / 2)) = Finite (- (1 / 2))"
  by code_simp

text \<open>The definitions that evaluate an execution on a given world.\<close>

lemmas eval_defs = init_def call_defs acquire_def locked_def release_def wakeUpNext_def
  round_simps
section \<open>The claims\<close>

text \<open>
  C1. A call of \<^verbatim>\<open>acquire\<close> has two paths. On a semaphore that is not locked it
  replaces the counter by the double nearest to the counter less one and returns
  without suspending; for a counter that is an integer above \<open>-2^53\<close> and at most \<open>2^53\<close>
  that is exactly one less. On a locked semaphore it puts a new handle at the tail of
  the queue and suspends on it, leaving the counter alone; the releases that follow
  invoke the handles queued before it, in order, then the new handle, and at a counter
  of zero (the only one a reachable locked semaphore with waiters has) the counter is
  zero after them. A \<^verbatim>\<open>run\<close> suspended on a handle does not continue before the handle
  is invoked and does continue after, with the counter as the release left it; the
  part of \<^verbatim>\<open>acquire\<close> that runs after the resumption changes nothing.
\<close>

theorem acquire_protocol:
  "(\<not> locked s \<longrightarrow>
      acquire h s = (Returned, s\<lparr>s_value := num_sub (s_value s) (Finite 1)\<rparr>)) \<and>
   (\<forall>k. \<not> locked s \<and> s_value s = Finite (of_int k) \<and> - (2 ^ 53) < k \<and> k \<le> 2 ^ 53 \<longrightarrow>
      acquire h s = (Returned, s\<lparr>s_value := Finite (of_int (k - 1))\<rparr>)) \<and>
   (locked s \<longrightarrow>
      acquire h s = (Awaiting h, s\<lparr>s_waiters := s_waiters s @ [h]\<rparr>) \<and>
      fst (releases (Suc (length (s_waiters s))) (snd (acquire h s))) = s_waiters s @ [h]) \<and>
   (locked s \<and> s_value s = Finite 0 \<longrightarrow>
      releases (length (s_waiters s)) (snd (acquire h s)) = (s_waiters s, s\<lparr>s_waiters := [h]\<rparr>) \<and>
      release (s\<lparr>s_waiters := [h]\<rparr>) = (Some h, s\<lparr>s_waiters := []\<rparr>)) \<and>
   (i < length (runs w) \<and> runs w ! i = AwaitAcquire (Awaiting h) \<and> h \<notin> set (resolved w) \<longrightarrow>
      step (OpRunResume i tc) w = w) \<and>
   (i < length (runs w) \<and> runs w ! i = AwaitAcquire (Awaiting h) \<and> h \<in> set (resolved w) \<longrightarrow>
      runs (step (OpRunResume i Promised) w) ! i = AwaitTask \<and>
      sem (step (OpRunResume i Promised) w) = sem w) \<and>
   acquire_resumed s' = s'"
proof -
  have a: "acquire h s = (Returned, s\<lparr>s_value := num_sub (s_value s) (Finite 1)\<rparr>)"
    if "\<not> locked s"
    using that by (simp add: acquire_def)
  have b: "acquire h s = (Returned, s\<lparr>s_value := Finite (of_int (k - 1))\<rparr>)"
    if "\<not> locked s" "s_value s = Finite (of_int k)" "- (2 ^ 53) < k" "k \<le> 2 ^ 53" for k
  proof -
    from that have "num_sub (Finite (of_int k)) (Finite 1) = Finite (of_int (k - 1))"
      by (intro num_sub_exact) simp_all
    with that a show ?thesis by (simp del: num_sub.simps)
  qed
  have c: "acquire h s = (Awaiting h, s\<lparr>s_waiters := s_waiters s @ [h]\<rparr>)" if "locked s"
    using that by (simp add: acquire_def)
  have d: "fst (releases (Suc (length (s_waiters s))) (snd (acquire h s))) = s_waiters s @ [h]"
    if "locked s"
    using releases_handles [of "Suc (length (s_waiters s))" "s\<lparr>s_waiters := s_waiters s @ [h]\<rparr>"]
      c [OF that]
    by (simp del: releases.simps)
  have e: "releases (length (s_waiters s)) (snd (acquire h s))
             = (s_waiters s, s\<lparr>s_waiters := [h]\<rparr>) \<and>
           release (s\<lparr>s_waiters := [h]\<rparr>) = (Some h, s\<lparr>s_waiters := []\<rparr>)"
    if "locked s" "s_value s = Finite 0"
    using that c [OF that(1)]
    by (simp add: releases_take release_head_zero)
  have f: "step (OpRunResume i tc) w = w"
    if "i < length (runs w)" "runs w ! i = AwaitAcquire (Awaiting h)" "h \<notin> set (resolved w)"
    using that by (rule run_not_granted)
  have g: "runs (step (OpRunResume i Promised) w) ! i = AwaitTask \<and>
           sem (step (OpRunResume i Promised) w) = sem w"
    if "i < length (runs w)" "runs w ! i = AwaitAcquire (Awaiting h)" "h \<in> set (resolved w)"
    using run_resume_promised [of i w "Awaiting h"] that by simp
  have r: "acquire_resumed s' = s'" by (simp add: acquire_resumed_def)
  from a b c d e f g r show ?thesis by blast
qed

theorem acquire_protocol_witness:
  "\<not> locked \<lparr>s_value = Finite 2, s_waiters = []\<rparr> \<and>
   acquire 7 \<lparr>s_value = Finite 2, s_waiters = []\<rparr> = (Returned, \<lparr>s_value = Finite 1, s_waiters = []\<rparr>) \<and>
   locked \<lparr>s_value = Finite 0, s_waiters = [5]\<rparr> \<and>
   acquire 7 \<lparr>s_value = Finite 0, s_waiters = [5]\<rparr> =
     (Awaiting 7, \<lparr>s_value = Finite 0, s_waiters = [5, 7]\<rparr>) \<and>
   releases 1 \<lparr>s_value = Finite 0, s_waiters = [5, 7]\<rparr> = ([5], \<lparr>s_value = Finite 0, s_waiters = [7]\<rparr>) \<and>
   release \<lparr>s_value = Finite 0, s_waiters = [7]\<rparr> = (Some 7, \<lparr>s_value = Finite 0, s_waiters = []\<rparr>) \<and>
   runs (exec [OpRun] (init \<lparr>s_value = Finite 0, s_waiters = []\<rparr> :: (unit, unit) world)) ! 0
     = AwaitAcquire (Awaiting 0) \<and>
   0 \<notin> set (resolved (exec [OpRun] (init \<lparr>s_value = Finite 0, s_waiters = []\<rparr> :: (unit, unit) world))) \<and>
   step (OpRunResume 0 Promised)
     (exec [OpRun] (init \<lparr>s_value = Finite 0, s_waiters = []\<rparr> :: (unit, unit) world))
     = exec [OpRun] (init \<lparr>s_value = Finite 0, s_waiters = []\<rparr>) \<and>
   0 \<in> set (resolved (exec [OpRun, OpRelease]
                (init \<lparr>s_value = Finite 0, s_waiters = []\<rparr> :: (unit, unit) world))) \<and>
   runs (step (OpRunResume 0 Promised)
           (exec [OpRun, OpRelease]
             (init \<lparr>s_value = Finite 0, s_waiters = []\<rparr> :: (unit, unit) world))) ! 0 = AwaitTask"
proof -
  let ?s = "\<lparr>s_value = Finite 2, s_waiters = []\<rparr>"
  let ?t = "\<lparr>s_value = Finite 0, s_waiters = [5]\<rparr>"
  let ?w = "exec [OpRun] (init \<lparr>s_value = Finite 0, s_waiters = []\<rparr>) :: (unit, unit) world"
  let ?w' = "exec [OpRun, OpRelease]
               (init \<lparr>s_value = Finite 0, s_waiters = []\<rparr>) :: (unit, unit) world"
  have i: "0 < length (runs ?w)" and p: "runs ?w ! 0 = AwaitAcquire (Awaiting 0)"
    and r: "0 \<notin> set (resolved ?w)"
    by (simp_all add: eval_defs)
  have i': "0 < length (runs ?w')" and p': "runs ?w' ! 0 = AwaitAcquire (Awaiting 0)"
    and r': "0 \<in> set (resolved ?w')"
    by (simp_all add: eval_defs)
  have n: "\<not> locked ?s" and v: "s_value ?s = Finite (of_int 2)"
    and l: "locked ?t" and z: "s_value ?t = Finite 0"
    by (simp_all add: locked_def)
  have bs: "- (2 ^ 53) < (2::int)" "(2::int) \<le> 2 ^ 53"
    by simp_all
  from acquire_protocol [where s = ?s and h = 7 and i = 0 and w = ?w and tc = Promised and s' = ?s]
    n v bs
  have f1: "acquire 7 ?s = (Returned, ?s\<lparr>s_value := Finite (of_int (2 - 1))\<rparr>)"
    by blast
  from acquire_protocol [where s = ?t and h = 7 and i = 0 and w = ?w and tc = Promised and s' = ?s]
    l z
  have f2: "acquire 7 ?t = (Awaiting 7, ?t\<lparr>s_waiters := s_waiters ?t @ [7]\<rparr>)"
    and f3: "releases (length (s_waiters ?t)) (snd (acquire 7 ?t))
              = (s_waiters ?t, ?t\<lparr>s_waiters := [7]\<rparr>)"
    and f4: "release (?t\<lparr>s_waiters := [7]\<rparr>) = (Some 7, ?t\<lparr>s_waiters := []\<rparr>)"
    by blast+
  from acquire_protocol [where s = ?s and h = 0 and i = 0 and w = ?w and tc = Promised and s' = ?s]
    i p r
  have f5: "step (OpRunResume 0 Promised) ?w = ?w"
    by blast
  from acquire_protocol [where s = ?s and h = 0 and i = 0 and w = ?w' and tc = Promised and s' = ?s]
    i' p' r'
  have f6: "runs (step (OpRunResume 0 Promised) ?w') ! 0 = AwaitTask"
    by blast
  from f3 f2 have f3b: "releases 1 \<lparr>s_value = Finite 0, s_waiters = [5, 7]\<rparr>
      = ([5], \<lparr>s_value = Finite 0, s_waiters = [7]\<rparr>)"
    by (simp del: releases.simps)
  from n l f1 f2 f3b f4 p r f5 r' f6 show ?thesis
    by (simp del: releases.simps exec.simps step.simps)
qed

theorem acquire_decrement_counterexample:
  "\<not> locked \<lparr>s_value = Finite 9007199254740994, s_waiters = []\<rparr> \<and>
   acquire 0 \<lparr>s_value = Finite 9007199254740994, s_waiters = []\<rparr>
     = (Returned, \<lparr>s_value = Finite 9007199254740992, s_waiters = []\<rparr>) \<and>
   Finite 9007199254740992 \<noteq> Finite (9007199254740994 - 1)"
  by (simp add: acquire_def locked_def round_past_limit)

text \<open>
  C2. A call of \<^verbatim>\<open>release\<close> replaces the counter by the double nearest to the
  counter plus one and then wakes at most one waiter. With an empty queue no handle is
  invoked and the counter stays so; for a counter that is an integer from \<open>-2^53\<close> and
  below \<open>2^53\<close> it is exactly one higher. With a queue that is not empty exactly its
  head is removed and invoked and the counter is taken down by one again; for such an
  integer counter it is what it was before the call. The call always returns: with
  nobody waiting, \<open>j\<close> calls in a row invoke nothing and leave an integer counter \<open>j\<close>
  higher, as long as it stays within \<open>2^53\<close>.
\<close>

theorem release_protocol:
  "release s = wakeUpNext (s\<lparr>s_value := num_add (s_value s) (Finite 1)\<rparr>) \<and>
   (s_waiters s = [] \<longrightarrow>
      release s = (None, s\<lparr>s_value := num_add (s_value s) (Finite 1)\<rparr>)) \<and>
   (\<forall>k. s_waiters s = [] \<and> s_value s = Finite (of_int k) \<and> - (2 ^ 53) \<le> k \<and> k < 2 ^ 53 \<longrightarrow>
      release s = (None, s\<lparr>s_value := Finite (of_int (k + 1))\<rparr>)) \<and>
   (\<forall>h rest. s_waiters s = h # rest \<longrightarrow>
      release s = (Some h, s\<lparr>s_waiters := rest,
                      s_value := num_sub (num_add (s_value s) (Finite 1)) (Finite 1)\<rparr>)) \<and>
   (\<forall>h rest k. s_waiters s = h # rest \<and> s_value s = Finite (of_int k) \<and>
        - (2 ^ 53) \<le> k \<and> k < 2 ^ 53 \<longrightarrow>
      release s = (Some h, s\<lparr>s_waiters := rest\<rparr>)) \<and>
   (\<forall>k j. s_waiters s = [] \<and> s_value s = Finite (of_int k) \<and>
        - (2 ^ 53) \<le> k \<and> k + int j \<le> 2 ^ 53 \<longrightarrow>
      releases j s = ([], s\<lparr>s_value := Finite (of_int (k + int j))\<rparr>))"
proof -
  have a: "release s = wakeUpNext (s\<lparr>s_value := num_add (s_value s) (Finite 1)\<rparr>)"
    by (simp add: release_def)
  have b: "release s = (None, s\<lparr>s_value := num_add (s_value s) (Finite 1)\<rparr>)"
    if "s_waiters s = []"
    using that by (rule release_empty)
  have c: "release s = (None, s\<lparr>s_value := Finite (of_int (k + 1))\<rparr>)"
    if "s_waiters s = []" "s_value s = Finite (of_int k)" "- (2 ^ 53) \<le> k" "k < 2 ^ 53" for k
  proof -
    from that have "num_add (Finite (of_int k)) (Finite 1) = Finite (of_int (k + 1))"
      by (intro num_add_exact) simp_all
    with that b show ?thesis by (simp del: num_add.simps)
  qed
  have d: "release s = (Some h, s\<lparr>s_waiters := rest,
                           s_value := num_sub (num_add (s_value s) (Finite 1)) (Finite 1)\<rparr>)"
    if "s_waiters s = h # rest" for h rest
    using that by (rule release_head)
  have e: "release s = (Some h, s\<lparr>s_waiters := rest\<rparr>)"
    if "s_waiters s = h # rest" "s_value s = Finite (of_int k)" "- (2 ^ 53) \<le> k" "k < 2 ^ 53"
    for h rest k
  proof -
    from that have "num_add (Finite (of_int k)) (Finite 1) = Finite (of_int (k + 1))"
      by (intro num_add_exact) simp_all
    moreover from that have "num_sub (Finite (of_int (k + 1))) (Finite 1) = Finite (of_int (k + 1 - 1))"
      by (intro num_sub_exact) simp_all
    ultimately have "num_sub (num_add (s_value s) (Finite 1)) (Finite 1) = s_value s"
      using that by (simp del: num_add.simps num_sub.simps)
    with d [OF that(1)] show ?thesis by (cases s) simp
  qed
  have f: "releases j s = ([], s\<lparr>s_value := Finite (of_int (k + int j))\<rparr>)"
    if "s_waiters s = []" "s_value s = Finite (of_int k)" "- (2 ^ 53) \<le> k" "k + int j \<le> 2 ^ 53"
    for k j
    using that by (rule releases_empty)
  from a b c d e f show ?thesis by blast
qed

theorem release_protocol_witness:
  "release \<lparr>s_value = Finite 0, s_waiters = [4, 9]\<rparr> = (Some 4, \<lparr>s_value = Finite 0, s_waiters = [9]\<rparr>) \<and>
   release \<lparr>s_value = Finite 3, s_waiters = []\<rparr> = (None, \<lparr>s_value = Finite 4, s_waiters = []\<rparr>) \<and>
   releases 5 \<lparr>s_value = Finite 3, s_waiters = []\<rparr> = ([], \<lparr>s_value = Finite 8, s_waiters = []\<rparr>)"
proof -
  let ?s = "\<lparr>s_value = Finite 0, s_waiters = [4, 9]\<rparr>"
  let ?t = "\<lparr>s_value = Finite 3, s_waiters = []\<rparr>"
  have q: "s_waiters ?s = 4 # [9]" and v: "s_value ?s = Finite (of_int 0)"
    and q': "s_waiters ?t = []" and v': "s_value ?t = Finite (of_int 3)"
    by simp_all
  have bs: "- (2 ^ 53) \<le> (0::int)" "(0::int) < 2 ^ 53" "- (2 ^ 53) \<le> (3::int)" "(3::int) < 2 ^ 53"
    "(3::int) + int 5 \<le> 2 ^ 53"
    by simp_all
  from release_protocol [of ?s] q v bs
  have f1: "release ?s = (Some 4, ?s\<lparr>s_waiters := [9]\<rparr>)" by blast
  from release_protocol [of ?t] q' v' bs
  have f2: "release ?t = (None, ?t\<lparr>s_value := Finite (of_int (3 + 1))\<rparr>)"
    and f3: "releases 5 ?t = ([], ?t\<lparr>s_value := Finite (of_int (3 + int 5))\<rparr>)"
    by blast+
  from f1 f2 f3 show ?thesis by (simp del: releases.simps)
qed

theorem release_increment_counterexample:
  "release \<lparr>s_value = Finite 9007199254740992, s_waiters = []\<rparr>
     = (None, \<lparr>s_value = Finite 9007199254740992, s_waiters = []\<rparr>) \<and>
   Finite 9007199254740992 \<noteq> Finite (9007199254740992 + 1)"
  by (simp add: release_def wakeUpNext_def round_past_limit)

text \<open>
  C3. After a construction with an integer \<open>n\<close> that succeeds, whatever calls of
  \<^verbatim>\<open>locked\<close>, \<^verbatim>\<open>acquire\<close>, \<^verbatim>\<open>release\<close> and \<^verbatim>\<open>run\<close> follow, and however the runs
  continue, the counter is the double of a natural number: it is never below zero.
\<close>

theorem permits_never_negative:
  "constructor (of_integer n) = Inr s0 \<Longrightarrow>
   (\<exists>k. 0 \<le> k \<and> s_value (sem (exec ops (init s0))) = of_integer k) \<and>
   \<not> num_lt (s_value (sem (exec ops (init s0)))) (Finite 0)"
proof -
  assume c: "constructor (of_integer n) = Inr s0"
  from constructor_Inr [OF c] have "0 \<le> n" and "s_value s0 = of_integer n"
    by (simp_all add: of_integer_lt_zero)
  then have "natural_inv (init s0 :: ('a, 'b) world)"
    by (auto simp: natural_inv_def init_def)
  then have "natural_inv (exec ops (init s0))"
    by (rule natural_exec)
  then show ?thesis
    by (auto simp: natural_inv_def natural_not_negative)
qed

theorem permits_never_negative_witness:
  "constructor (of_integer 1) = Inr \<lparr>s_value = Finite 1, s_waiters = []\<rparr> \<and>
   (\<exists>k. 0 \<le> k \<and>
      s_value (sem (exec [OpAcquire, OpRun, OpRelease, OpRunResume 0 Promised,
                          OpTaskSettle 0 (Rejected ())]
                     (init \<lparr>s_value = Finite 1, s_waiters = []\<rparr> :: (unit, unit) world)))
        = of_integer k)"
proof -
  have c: "constructor (of_integer 1) = Inr \<lparr>s_value = Finite 1, s_waiters = []\<rparr>"
    by (simp add: constructor_def of_integer_def round_simps)
  from permits_never_negative [OF c] c show ?thesis by blast
qed

text \<open>
  C4. After any construction that succeeds and any execution, a queue that is not
  empty goes with a counter at zero; so a call of \<^verbatim>\<open>acquire\<close> that suspends finds the
  counter at zero.
\<close>

theorem waiters_only_at_zero:
  "constructor v = Inr s0 \<Longrightarrow>
   (s_waiters (sem (exec ops (init s0))) \<noteq> [] \<longrightarrow> s_value (sem (exec ops (init s0))) = Finite 0) \<and>
   (fst (acquire h (sem (exec ops (init s0)))) = Awaiting h \<longrightarrow>
      s_value (sem (exec ops (init s0))) = Finite 0)"
proof -
  assume "constructor v = Inr s0"
  then have "queue_inv (init s0 :: ('a, 'b) world)"
    by (auto simp: queue_inv_def init_def dest!: constructor_Inr)
  then have "queue_inv (exec ops (init s0))"
    by (rule queue_exec)
  then show ?thesis
    by (auto simp: queue_inv_def acquire_def locked_iff split: if_splits)
qed

theorem waiters_only_at_zero_witness:
  "constructor (Finite 1) = Inr \<lparr>s_value = Finite 1, s_waiters = []\<rparr> \<and>
   s_waiters (sem (exec [OpAcquire, OpAcquire, OpRun]
                (init \<lparr>s_value = Finite 1, s_waiters = []\<rparr> :: (unit, unit) world))) = [0, 1] \<and>
   fst (acquire 2 (sem (exec [OpAcquire, OpAcquire, OpRun]
                (init \<lparr>s_value = Finite 1, s_waiters = []\<rparr> :: (unit, unit) world)))) = Awaiting 2 \<and>
   s_value (sem (exec [OpAcquire, OpAcquire, OpRun]
                (init \<lparr>s_value = Finite 1, s_waiters = []\<rparr> :: (unit, unit) world))) = Finite 0"
proof -
  let ?w = "exec [OpAcquire, OpAcquire, OpRun]
              (init \<lparr>s_value = Finite 1, s_waiters = []\<rparr>) :: (unit, unit) world"
  have c: "constructor (Finite 1) = Inr \<lparr>s_value = Finite 1, s_waiters = []\<rparr>"
    by (simp add: constructor_def)
  have q: "s_waiters (sem ?w) = [0, 1]"
    and a: "fst (acquire 2 (sem ?w)) = Awaiting 2"
    by (simp_all add: eval_defs)
  from q have "s_waiters (sem ?w) \<noteq> []"
    by simp
  with waiters_only_at_zero [OF c, of "[OpAcquire, OpAcquire, OpRun]" 2] c q a show ?thesis
    by blast
qed

text \<open>
  C5. Let A call \<^verbatim>\<open>acquire\<close> (directly or through \<^verbatim>\<open>run\<close>) and find the semaphore
  locked, and let B do the same later, with any pieces of execution before, between and
  after the two calls. Each is queued at the tail, on a handle of its own. However the
  execution goes on, the handles invoked so far and the handles still queued hold no
  handle twice and hold the handle of A before the handle of B; and if the handle of B
  has been invoked, the handle of A was invoked before it.
\<close>

theorem fifo_order:
  assumes c: "constructor v = Inr s0"
    and wa: "wa = exec opsa (init s0)" and la: "locked (sem wa)"
    and xa: "xa = OpAcquire \<or> xa = OpRun"
    and wb: "wb = exec opsb (step xa wa)" and lb: "locked (sem wb)"
    and xb: "xb = OpAcquire \<or> xb = OpRun"
    and wc: "wc = exec opsc (step xb wb)"
  shows "s_waiters (sem (step xa wa)) = s_waiters (sem wa) @ [fresh wa] \<and>
         s_waiters (sem (step xb wb)) = s_waiters (sem wb) @ [fresh wb] \<and>
         fresh wa < fresh wb \<and>
         distinct (resolved wc @ s_waiters (sem wc)) \<and>
         (\<exists>pre mid post.
            resolved wc @ s_waiters (sem wc) = pre @ fresh wa # mid @ fresh wb # post) \<and>
         (fresh wb \<in> set (resolved wc) \<longrightarrow>
            (\<exists>pre mid post. resolved wc = pre @ fresh wa # mid @ fresh wb # post))"
proof -
  let ?a = "fresh wa" and ?b = "fresh wb" and ?f = "fresh wc"
  from fresh_acquire_locked [OF la xa]
  have fa: "fresh (step xa wa) = Suc ?a"
    and qa: "s_waiters (sem (step xa wa)) = s_waiters (sem wa) @ [?a]" by simp_all
  from fresh_acquire_locked [OF lb xb]
  have fb: "fresh (step xb wb) = Suc ?b"
    and qb: "s_waiters (sem (step xb wb)) = s_waiters (sem wb) @ [?b]" by simp_all
  from fresh_exec [of "step xa wa" opsb] fa wb have ab: "?a < ?b" by simp
  from fresh_exec [of "step xb wb" opsc] fb wc have bf: "?b < ?f" by simp
  have "fifo_inv (init s0 :: ('a, 'b) world)"
    by (simp add: fifo_inv_def init_def constructor_Inr [OF c])
  then have "fifo_inv wc"
    unfolding wc wb wa by (intro fifo_exec fifo_step)
  then have all: "resolved wc @ s_waiters (sem wc) = [0..<?f]"
    by (simp add: fifo_inv_def)
  then have d: "distinct (resolved wc @ s_waiters (sem wc))"
    by (metis distinct_upt)
  from all upt_split2 [OF ab bf]
  have s: "\<exists>pre mid post.
      resolved wc @ s_waiters (sem wc) = pre @ ?a # mid @ ?b # post"
    by metis
  have r: "\<exists>pre mid post. resolved wc = pre @ ?a # mid @ ?b # post"
    if "?b \<in> set (resolved wc)"
  proof -
    let ?k = "length (resolved wc)"
    from upt_prefix [OF all] have k: "resolved wc = [0..<?k]" .
    with that have "?b \<in> set [0..<?k]" by simp
    then have "?b < ?k" by simp
    from upt_split2 [OF ab this] k show ?thesis by metis
  qed
  from qa qb ab d s r show ?thesis by blast
qed


theorem fifo_order_witness:
  "constructor (Finite 1) = Inr \<lparr>s_value = Finite 1, s_waiters = []\<rparr> \<and>
   locked (sem (exec [OpAcquire] (init \<lparr>s_value = Finite 1, s_waiters = []\<rparr> :: (unit, unit) world))) \<and>
   locked (sem (exec [] (step OpAcquire
      (exec [OpAcquire] (init \<lparr>s_value = Finite 1, s_waiters = []\<rparr> :: (unit, unit) world))))) \<and>
   (\<exists>pre mid post.
      resolved (exec [OpRelease, OpRelease] (step OpRun (exec [] (step OpAcquire
        (exec [OpAcquire] (init \<lparr>s_value = Finite 1, s_waiters = []\<rparr> :: (unit, unit) world))))))
      = pre @ 0 # mid @ 1 # post)"
proof -
  let ?s0 = "\<lparr>s_value = Finite 1, s_waiters = []\<rparr>"
  let ?w1 = "exec [OpAcquire] (init ?s0) :: (unit, unit) world"
  let ?w2 = "exec [] (step OpAcquire ?w1)"
  let ?w3 = "exec [OpRelease, OpRelease] (step OpRun ?w2)"
  have c: "constructor (Finite 1) = Inr ?s0" by (simp add: constructor_def)
  have l1: "locked (sem ?w1)" by (simp add: eval_defs)
  have l2: "locked (sem ?w2)" by (simp add: eval_defs)
  have f: "fresh ?w1 = 0" "fresh ?w2 = 1" by (simp_all add: eval_defs)
  have m: "fresh ?w2 \<in> set (resolved ?w3)" by (simp add: eval_defs)
  from fifo_order [OF c refl l1 _ refl l2 _ refl,
      where xb = OpRun and opsc = "[OpRelease, OpRelease]"] m
  have "\<exists>pre mid post. resolved ?w3 = pre @ fresh ?w1 # mid @ fresh ?w2 # post"
    by blast
  with f have "\<exists>pre mid post. resolved ?w3 = pre @ 0 # mid @ 1 # post"
    by (simp only:)
  with c l1 l2 show ?thesis by blast
qed

text \<open>
  C6. \<^verbatim>\<open>locked()\<close> is true exactly when the counter is zero or the queue is not
  empty, which is exactly when a call of \<^verbatim>\<open>acquire\<close> would suspend; the call changes
  nothing.
\<close>

theorem locked_query:
  "(locked s \<longleftrightarrow> s_value s = Finite 0 \<or> s_waiters s \<noteq> []) \<and>
   (locked s \<longleftrightarrow> fst (acquire h s) = Awaiting h) \<and>
   call_locked w = (locked (sem w), w) \<and>
   step OpLocked w = w"
  by (simp add: locked_iff acquire_def call_locked_def)

theorem locked_query_witness:
  "locked \<lparr>s_value = Finite 0, s_waiters = []\<rparr> \<and>
   locked \<lparr>s_value = Finite 2, s_waiters = [3]\<rparr> \<and>
   \<not> locked \<lparr>s_value = Finite 2, s_waiters = []\<rparr> \<and>
   \<not> locked \<lparr>s_value = NaN, s_waiters = []\<rparr>"
proof -
  let ?w = "init \<lparr>s_value = Finite 0, s_waiters = []\<rparr> :: (unit, unit) world"
  from locked_query [of "\<lparr>s_value = Finite 0, s_waiters = []\<rparr>" 0 ?w]
    locked_query [of "\<lparr>s_value = Finite 2, s_waiters = [3]\<rparr>" 0 ?w]
    locked_query [of "\<lparr>s_value = Finite 2, s_waiters = []\<rparr>" 0 ?w]
    locked_query [of "\<lparr>s_value = NaN, s_waiters = []\<rparr>" 0 ?w]
  show ?thesis by simp
qed

text \<open>
  C7. For an integer \<open>n\<close>, the construction fails exactly when \<open>n < 0\<close>, with the error
  the constructor throws and no instance; for \<open>n \<ge> 0\<close> it gives a semaphore with the
  counter at \<open>n\<close> (as a double) and an empty queue.
\<close>

theorem constructor_integer:
  "(isl (constructor (of_integer n)) \<longleftrightarrow> n < 0) \<and>
   (n < 0 \<longrightarrow>
      constructor (of_integer n) = Inl (Error ''Semaphore initial value must be >= 0'')) \<and>
   (0 \<le> n \<longrightarrow>
      constructor (of_integer n) = Inr \<lparr>s_value = of_integer n, s_waiters = []\<rparr>)"
  by (simp add: constructor_def of_integer_lt_zero)

theorem constructor_integer_witness:
  "constructor (of_integer (- 1)) = Inl (Error ''Semaphore initial value must be >= 0'') \<and>
   constructor (of_integer 3) = Inr \<lparr>s_value = Finite 3, s_waiters = []\<rparr>"
  using constructor_integer [of "- 1"] constructor_integer [of 3]
  by (simp add: of_integer_def round_simps)

text \<open>
  C8. In every execution, every call of \<^verbatim>\<open>run\<close> has made exactly these calls: one
  of \<^verbatim>\<open>acquire\<close> while it waits for it; then one of the task while it waits for the
  task; then one of \<^verbatim>\<open>release\<close> when it has settled, whether the task fulfilled or
  failed. As long as the handle its \<^verbatim>\<open>acquire\<close> waits for has not been invoked it does
  nothing; once the \<^verbatim>\<open>acquire\<close> has returned or the handle has been invoked, it calls
  the task. When the task throws at the call, or when its promise settles,
  \<^verbatim>\<open>release\<close> runs and \<^verbatim>\<open>run\<close> settles to the same outcome. A \<^verbatim>\<open>run\<close> on a semaphore
  that is not locked (a first \<^verbatim>\<open>run\<close> on a new semaphore included), with nothing else
  running in between, takes one from the counter and adds one to the result, whatever
  the outcome of the task; for a counter that is an integer above \<open>-2^53\<close> and at most
  \<open>2^53\<close> this leaves the semaphore as it found it.
\<close>

theorem run_contract:
  assumes c: "constructor v = Inr s0" and w: "w = exec ops (init s0)"
  shows
   "(i < length (runs w) \<longrightarrow> run_calls i (trace w) = calls_at (runs w ! i)) \<and>
    (i < length (runs w) \<and> runs w ! i = AwaitAcquire (Awaiting h) \<and> h \<notin> set (resolved w) \<longrightarrow>
       step (OpRunResume i tc) w = w) \<and>
    (\<forall>st. i < length (runs w) \<and> runs w ! i = AwaitAcquire st \<and>
          (st = Returned \<or> (\<exists>g. st = Awaiting g \<and> g \<in> set (resolved w))) \<longrightarrow>
       runs (step (OpRunResume i Promised) w) ! i = AwaitTask \<and>
       run_calls i (trace (step (OpRunResume i Promised) w)) = [AcquireCall, TaskCall] \<and>
       sem (step (OpRunResume i Promised) w) = sem w \<and>
       runs (step (OpRunResume i (Threw e)) w) ! i = Settled (Rejected e) \<and>
       run_calls i (trace (step (OpRunResume i (Threw e)) w))
         = [AcquireCall, TaskCall, ReleaseCall] \<and>
       sem (step (OpRunResume i (Threw e)) w) = snd (release (sem w))) \<and>
    (i < length (runs w) \<and> runs w ! i = AwaitTask \<longrightarrow>
       runs (step (OpTaskSettle i r) w) ! i = Settled r \<and>
       run_calls i (trace (step (OpTaskSettle i r) w)) = [AcquireCall, TaskCall, ReleaseCall] \<and>
       sem (step (OpTaskSettle i r) w) = snd (release (sem w))) \<and>
    (\<not> locked (sem w) \<longrightarrow>
       sem (exec [OpRun, OpRunResume (length (runs w)) Promised,
                  OpTaskSettle (length (runs w)) r] w)
         = (sem w)\<lparr>s_value := num_add (num_sub (s_value (sem w)) (Finite 1)) (Finite 1)\<rparr> \<and>
       runs (exec [OpRun, OpRunResume (length (runs w)) Promised,
                   OpTaskSettle (length (runs w)) r] w) ! length (runs w) = Settled r \<and>
       sem (exec [OpRun, OpRunResume (length (runs w)) (Threw e)] w)
         = (sem w)\<lparr>s_value := num_add (num_sub (s_value (sem w)) (Finite 1)) (Finite 1)\<rparr> \<and>
       runs (exec [OpRun, OpRunResume (length (runs w)) (Threw e)] w) ! length (runs w)
         = Settled (Rejected e)) \<and>
    (\<forall>k. \<not> locked (sem w) \<and> s_value (sem w) = Finite (of_int k) \<and>
          - (2 ^ 53) < k \<and> k \<le> 2 ^ 53 \<longrightarrow>
       sem (exec [OpRun, OpRunResume (length (runs w)) Promised,
                  OpTaskSettle (length (runs w)) r] w) = sem w \<and>
       sem (exec [OpRun, OpRunResume (length (runs w)) (Threw e)] w) = sem w)"
proof -
  have "runs_inv (init s0 :: ('a, 'b) world)"
    by (simp add: runs_inv_def init_def run_calls_simps)
  then have "runs_inv w"
    unfolding w by (rule runs_exec)
  then have a: "run_calls i (trace w) = calls_at (runs w ! i)" if "i < length (runs w)"
    using that by (simp add: runs_inv_def)
  have b: "step (OpRunResume i tc) w = w"
    if "i < length (runs w)" "runs w ! i = AwaitAcquire (Awaiting h)" "h \<notin> set (resolved w)"
    using that by (rule run_not_granted)
  have d: "runs (step (OpRunResume i Promised) w) ! i = AwaitTask \<and>
       run_calls i (trace (step (OpRunResume i Promised) w)) = [AcquireCall, TaskCall] \<and>
       sem (step (OpRunResume i Promised) w) = sem w \<and>
       runs (step (OpRunResume i (Threw e)) w) ! i = Settled (Rejected e) \<and>
       run_calls i (trace (step (OpRunResume i (Threw e)) w))
         = [AcquireCall, TaskCall, ReleaseCall] \<and>
       sem (step (OpRunResume i (Threw e)) w) = snd (release (sem w))"
    if "i < length (runs w)" "runs w ! i = AwaitAcquire st"
      "st = Returned \<or> (\<exists>g. st = Awaiting g \<and> g \<in> set (resolved w))" for st
  proof -
    from that(3) have s: "acquire_settled (resolved w) st" by (rule granted_settled)
    from a [OF that(1)] that(2) have t: "run_calls i (trace w) = [AcquireCall]" by simp
    from run_resume_promised [OF that(1,2) s] t
    have "runs (step (OpRunResume i Promised) w) ! i = AwaitTask \<and>
       run_calls i (trace (step (OpRunResume i Promised) w)) = [AcquireCall, TaskCall] \<and>
       sem (step (OpRunResume i Promised) w) = sem w"
      by (simp add: run_calls_simps del: step.simps)
    with run_resume_threw [OF that(1,2) s a [OF that(1)], of e] show ?thesis by blast
  qed
  have f: "runs (step (OpTaskSettle i r) w) ! i = Settled r \<and>
       run_calls i (trace (step (OpTaskSettle i r) w)) = [AcquireCall, TaskCall, ReleaseCall] \<and>
       sem (step (OpTaskSettle i r) w) = snd (release (sem w))"
    if "i < length (runs w)" "runs w ! i = AwaitTask"
    using run_settle [OF that a [OF that(1)]] .
  note g = run_alone [of w r e]
  have x: "sem (exec [OpRun, OpRunResume (length (runs w)) Promised,
                  OpTaskSettle (length (runs w)) r] w) = sem w \<and>
       sem (exec [OpRun, OpRunResume (length (runs w)) (Threw e)] w) = sem w"
    if "\<not> locked (sem w)" "s_value (sem w) = Finite (of_int k)" "- (2 ^ 53) < k" "k \<le> 2 ^ 53"
    for k
  proof -
    from there_and_back [OF that(3,4)] that(2)
    have "(sem w)\<lparr>s_value := num_add (num_sub (s_value (sem w)) (Finite 1)) (Finite 1)\<rparr> = sem w"
      by (cases "sem w") (simp del: num_add.simps num_sub.simps)
    with g that(1) show ?thesis by metis
  qed
  from a b d f g x show ?thesis by blast
qed

theorem run_contract_witness:
  "constructor (Finite 2) = Inr \<lparr>s_value = Finite 2, s_waiters = []\<rparr> \<and>
   \<not> locked (sem (exec [] (init \<lparr>s_value = Finite 2, s_waiters = []\<rparr> :: (nat, nat) world))) \<and>
   sem (exec [OpRun, OpRunResume 0 Promised, OpTaskSettle 0 (Rejected 7)]
         (exec [] (init \<lparr>s_value = Finite 2, s_waiters = []\<rparr> :: (nat, nat) world)))
     = sem (exec [] (init \<lparr>s_value = Finite 2, s_waiters = []\<rparr> :: (nat, nat) world)) \<and>
   runs (exec [OpRun] (init \<lparr>s_value = Finite 2, s_waiters = []\<rparr> :: (nat, nat) world)) ! 0
     = AwaitAcquire Returned \<and>
   runs (step (OpRunResume 0 Promised)
          (exec [OpRun] (init \<lparr>s_value = Finite 2, s_waiters = []\<rparr> :: (nat, nat) world))) ! 0
     = AwaitTask \<and>
   runs (step (OpRunResume 0 (Threw 7))
          (exec [OpRun] (init \<lparr>s_value = Finite 2, s_waiters = []\<rparr> :: (nat, nat) world))) ! 0
     = Settled (Rejected 7) \<and>
   runs (exec [OpRun, OpRunResume 0 Promised]
          (init \<lparr>s_value = Finite 2, s_waiters = []\<rparr> :: (nat, nat) world)) ! 0 = AwaitTask \<and>
   runs (step (OpTaskSettle 0 (Rejected 7))
          (exec [OpRun, OpRunResume 0 Promised]
            (init \<lparr>s_value = Finite 2, s_waiters = []\<rparr> :: (nat, nat) world))) ! 0
     = Settled (Rejected 7) \<and>
   run_calls 0 (trace (step (OpTaskSettle 0 (Rejected 7))
          (exec [OpRun, OpRunResume 0 Promised]
            (init \<lparr>s_value = Finite 2, s_waiters = []\<rparr> :: (nat, nat) world))))
     = [AcquireCall, TaskCall, ReleaseCall] \<and>
   runs (exec [OpAcquire, OpAcquire, OpRun]
          (init \<lparr>s_value = Finite 2, s_waiters = []\<rparr> :: (nat, nat) world)) ! 0
     = AwaitAcquire (Awaiting 0) \<and>
   0 \<notin> set (resolved (exec [OpAcquire, OpAcquire, OpRun]
          (init \<lparr>s_value = Finite 2, s_waiters = []\<rparr> :: (nat, nat) world))) \<and>
   step (OpRunResume 0 Promised) (exec [OpAcquire, OpAcquire, OpRun]
          (init \<lparr>s_value = Finite 2, s_waiters = []\<rparr> :: (nat, nat) world))
     = exec [OpAcquire, OpAcquire, OpRun] (init \<lparr>s_value = Finite 2, s_waiters = []\<rparr>)"
proof -
  let ?s0 = "\<lparr>s_value = Finite 2, s_waiters = []\<rparr>"
  let ?u = "exec [] (init ?s0) :: (nat, nat) world"
  let ?w = "exec [OpRun] (init ?s0) :: (nat, nat) world"
  let ?w' = "exec [OpRun, OpRunResume 0 Promised] (init ?s0) :: (nat, nat) world"
  let ?w'' = "exec [OpAcquire, OpAcquire, OpRun] (init ?s0) :: (nat, nat) world"
  have c: "constructor (Finite 2) = Inr ?s0" by (simp add: constructor_def)
  have l0: "\<not> locked (sem ?u)" and v0: "s_value (sem ?u) = Finite (of_int 2)"
    and n0: "length (runs ?u) = 0"
    by (simp_all add: eval_defs)
  have bs: "- (2 ^ 53) < (2::int)" "(2::int) \<le> 2 ^ 53" by simp_all
  have i: "0 < length (runs ?w)" and p: "runs ?w ! 0 = AwaitAcquire Returned"
    by (simp_all add: eval_defs)
  have i': "0 < length (runs ?w')" and p': "runs ?w' ! 0 = AwaitTask"
    by (simp_all add: eval_defs)
  have i'': "0 < length (runs ?w'')" and p'': "runs ?w'' ! 0 = AwaitAcquire (Awaiting 0)"
    and r'': "0 \<notin> set (resolved ?w'')"
    by (simp_all add: eval_defs)
  have pre0: "\<not> locked (sem ?u) \<and> s_value (sem ?u) = Finite (of_int 2) \<and>
      - (2 ^ 53) < (2::int) \<and> (2::int) \<le> 2 ^ 53"
    using l0 v0 bs by (intro conjI)
  note at_u = run_contract [OF c refl, where ops = "[]" and r = "Rejected 7" and e = 7]
  note x0 = at_u [THEN conjunct2, THEN conjunct2, THEN conjunct2, THEN conjunct2, THEN conjunct2,
      THEN spec, THEN mp, OF pre0, THEN conjunct1]
  from x0 have f0: "sem (exec [OpRun, OpRunResume 0 Promised, OpTaskSettle 0 (Rejected 7)] ?u)
      = sem ?u"
    by (simp only: n0)
  have pre1: "0 < length (runs ?w) \<and> runs ?w ! 0 = AwaitAcquire Returned \<and>
      (Returned = Returned \<or> (\<exists>g. Returned = Awaiting g \<and> g \<in> set (resolved ?w)))"
    using i p by (intro conjI disjI1 refl)
  note at_w = run_contract [OF c refl, where ops = "[OpRun]" and i = 0 and e = 7]
  note x1 = at_w [THEN conjunct2, THEN conjunct2, THEN conjunct1, THEN spec, THEN mp, OF pre1]
  from x1 have f1: "runs (step (OpRunResume 0 Promised) ?w) ! 0 = AwaitTask"
    by (rule conjunct1)
  from x1 have f2: "runs (step (OpRunResume 0 (Threw 7)) ?w) ! 0 = Settled (Rejected 7)"
    by (elim conjE)
  have pre2: "0 < length (runs ?w') \<and> runs ?w' ! 0 = AwaitTask"
    using i' p' by (intro conjI)
  note at_w' = run_contract [OF c refl, where ops = "[OpRun, OpRunResume 0 Promised]" and i = 0
      and r = "Rejected 7"]
  note x2 = at_w' [THEN conjunct2, THEN conjunct2, THEN conjunct2, THEN conjunct1, THEN mp, OF pre2]
  from x2 have f3: "runs (step (OpTaskSettle 0 (Rejected 7)) ?w') ! 0 = Settled (Rejected 7)"
    by (rule conjunct1)
  from x2 have f4: "run_calls 0 (trace (step (OpTaskSettle 0 (Rejected 7)) ?w'))
          = [AcquireCall, TaskCall, ReleaseCall]"
    by (elim conjE)
  have pre3: "0 < length (runs ?w'') \<and> runs ?w'' ! 0 = AwaitAcquire (Awaiting 0) \<and>
      0 \<notin> set (resolved ?w'')"
    using i'' p'' r'' by (intro conjI)
  note at_w'' = run_contract [OF c refl, where ops = "[OpAcquire, OpAcquire, OpRun]" and i = 0
      and h = 0 and tc = Promised]
  note f5 = at_w'' [THEN conjunct2, THEN conjunct1, THEN mp, OF pre3]
  from c l0 f0 p f1 f2 p' f3 f4 p'' r'' f5 show ?thesis
    by (intro conjI)
qed

theorem run_restore_counterexample:
  "constructor (Finite 9007199254740994)
     = Inr \<lparr>s_value = Finite 9007199254740994, s_waiters = []\<rparr> \<and>
   \<not> locked \<lparr>s_value = Finite 9007199254740994, s_waiters = []\<rparr> \<and>
   runs (exec [OpRun, OpRunResume 0 Promised, OpTaskSettle 0 (Fulfilled ())]
          (init \<lparr>s_value = Finite 9007199254740994, s_waiters = []\<rparr> :: (unit, unit) world)) ! 0
     = Settled (Fulfilled ()) \<and>
   sem (exec [OpRun, OpRunResume 0 Promised, OpTaskSettle 0 (Fulfilled ())]
         (init \<lparr>s_value = Finite 9007199254740994, s_waiters = []\<rparr> :: (unit, unit) world))
     = \<lparr>s_value = Finite 9007199254740992, s_waiters = []\<rparr> \<and>
   Finite 9007199254740992 \<noteq> Finite 9007199254740994"
  by (simp add: constructor_def init_def call_defs acquire_def locked_def release_def
      wakeUpNext_def round_past_limit)

text \<open>
  C9. After a construction with an integer \<open>n\<close> of at most \<open>2^53\<close> that succeeds and any
  execution without over-release, the counter is \<open>n\<close> less the acquires that are
  outstanding. So when as many calls of \<^verbatim>\<open>release\<close> as of \<^verbatim>\<open>acquire\<close> have been made and
  the queue is empty, the counter is \<open>n\<close> again.
\<close>

theorem permits_conserved:
  assumes c: "constructor (of_integer n) = Inr s0" and n: "n \<le> 2 ^ 53"
    and d: "no_over_release ops (init s0)" and w: "w = exec ops (init s0)"
  shows "s_value (sem w) = of_integer (n - outstanding w) \<and>
         (count_calls AcquireCall (trace w) = count_calls ReleaseCall (trace w) \<and>
          s_waiters (sem w) = [] \<longrightarrow> s_value (sem w) = of_integer n)"
proof -
  from constructor_Inr [OF c] have n0: "0 \<le> n" and s0: "s0 = \<lparr>s_value = of_integer n, s_waiters = []\<rparr>"
    by (simp_all add: of_integer_lt_zero)
  from n0 n have "of_integer n = Finite (of_int n)" by (intro of_integer_small) simp_all
  with s0 n0 have "conserved n (init s0 :: ('a, 'b) world)"
    by (simp add: conserved_def outstanding_def init_def count_calls_def)
  from conserved_exec [OF this n d] have k: "conserved n w" by (simp only: w)
  then have lo: "0 \<le> outstanding w" and hi: "outstanding w \<le> n"
    and v: "s_value (sem w) = Finite (of_int (n - outstanding w))"
    unfolding conserved_def by blast+
  from lo hi n n0 have "of_integer (n - outstanding w) = Finite (of_int (n - outstanding w))"
    by (intro of_integer_small) simp_all
  with v have a: "s_value (sem w) = of_integer (n - outstanding w)" by simp
  have "outstanding w = 0"
    if "count_calls AcquireCall (trace w) = count_calls ReleaseCall (trace w)"
      "s_waiters (sem w) = []"
    using that by (simp add: outstanding_def)
  with a show ?thesis by auto
qed

theorem permits_conserved_witness:
  "constructor (of_integer 2) = Inr \<lparr>s_value = Finite 2, s_waiters = []\<rparr> \<and>
   no_over_release [OpAcquire, OpRun, OpAcquire, OpRelease, OpRunResume 0 Promised,
       OpRelease, OpTaskSettle 0 (Fulfilled ())]
     (init \<lparr>s_value = Finite 2, s_waiters = []\<rparr> :: (unit, unit) world) \<and>
   count_calls AcquireCall (trace (exec [OpAcquire, OpRun, OpAcquire, OpRelease, OpRunResume 0 Promised,
       OpRelease, OpTaskSettle 0 (Fulfilled ())]
     (init \<lparr>s_value = Finite 2, s_waiters = []\<rparr> :: (unit, unit) world))) = 3 \<and>
   count_calls ReleaseCall (trace (exec [OpAcquire, OpRun, OpAcquire, OpRelease, OpRunResume 0 Promised,
       OpRelease, OpTaskSettle 0 (Fulfilled ())]
     (init \<lparr>s_value = Finite 2, s_waiters = []\<rparr> :: (unit, unit) world))) = 3 \<and>
   s_value (sem (exec [OpAcquire, OpRun, OpAcquire, OpRelease, OpRunResume 0 Promised,
       OpRelease, OpTaskSettle 0 (Fulfilled ())]
     (init \<lparr>s_value = Finite 2, s_waiters = []\<rparr> :: (unit, unit) world))) = of_integer 2"
proof -
  let ?s0 = "\<lparr>s_value = Finite 2, s_waiters = []\<rparr>"
  let ?ops = "[OpAcquire, OpRun, OpAcquire, OpRelease, OpRunResume 0 Promised,
       OpRelease, OpTaskSettle 0 (Fulfilled ())] :: (unit, unit) op list"
  let ?w = "exec ?ops (init ?s0) :: (unit, unit) world"
  have c: "constructor (of_integer 2) = Inr ?s0"
    by (simp add: constructor_def of_integer_def round_simps)
  have n: "(2::int) \<le> 2 ^ 53" by simp
  have d: "no_over_release ?ops (init ?s0)"
    by (simp add: eval_defs outstanding_def count_calls_def)
  have a: "count_calls AcquireCall (trace ?w) = 3"
    and r: "count_calls ReleaseCall (trace ?w) = 3"
    and q: "s_waiters (sem ?w) = []"
    by (simp_all add: eval_defs count_calls_def)
  from permits_conserved [OF c n d refl]
  have "count_calls AcquireCall (trace ?w) = count_calls ReleaseCall (trace ?w) \<and>
        s_waiters (sem ?w) = [] \<longrightarrow> s_value (sem ?w) = of_integer 2"
    by (rule conjunct2)
  moreover have "count_calls AcquireCall (trace ?w) = count_calls ReleaseCall (trace ?w)"
    by (simp only: a r)
  ultimately have "s_value (sem ?w) = of_integer 2"
    using q by blast
  with c d a r show ?thesis by blast
qed

theorem permits_conserved_counterexample:
  "constructor (of_integer 9007199254740994)
     = Inr \<lparr>s_value = Finite 9007199254740994, s_waiters = []\<rparr> \<and>
   no_over_release [OpAcquire, OpRelease]
     (init \<lparr>s_value = Finite 9007199254740994, s_waiters = []\<rparr> :: (unit, unit) world) \<and>
   count_calls AcquireCall (trace (exec [OpAcquire, OpRelease]
     (init \<lparr>s_value = Finite 9007199254740994, s_waiters = []\<rparr> :: (unit, unit) world))) = 1 \<and>
   count_calls ReleaseCall (trace (exec [OpAcquire, OpRelease]
     (init \<lparr>s_value = Finite 9007199254740994, s_waiters = []\<rparr> :: (unit, unit) world))) = 1 \<and>
   sem (exec [OpAcquire, OpRelease]
     (init \<lparr>s_value = Finite 9007199254740994, s_waiters = []\<rparr> :: (unit, unit) world))
     = \<lparr>s_value = Finite 9007199254740992, s_waiters = []\<rparr> \<and>
   of_integer 9007199254740994 = Finite 9007199254740994 \<and>
   Finite 9007199254740992 \<noteq> Finite 9007199254740994"
  by (simp add: constructor_def of_integer_def init_def call_defs acquire_def locked_def
      release_def wakeUpNext_def outstanding_def count_calls_def round_past_limit round_at_limit)

text \<open>
  C10. The constructor checks \<^verbatim>\<open>value < 0\<close> and nothing else: it fails exactly on
  the numbers that compare below zero, and stores every other number as it is, among
  them NaN and one half.
\<close>

theorem constructor_any_number:
  "(isl (constructor x) \<longleftrightarrow> num_lt x (Finite 0)) \<and>
   (\<not> num_lt x (Finite 0) \<longrightarrow> constructor x = Inr \<lparr>s_value = x, s_waiters = []\<rparr>) \<and>
   constructor NaN = Inr \<lparr>s_value = NaN, s_waiters = []\<rparr> \<and>
   constructor (Finite (1 / 2)) = Inr \<lparr>s_value = Finite (1 / 2), s_waiters = []\<rparr>"
  by (simp add: constructor_def)

theorem constructor_any_number_witness:
  "\<not> num_lt PosInfinity (Finite 0) \<and>
   constructor PosInfinity = Inr \<lparr>s_value = PosInfinity, s_waiters = []\<rparr> \<and>
   isl (constructor (Finite (- (1 / 2))))"
  using constructor_any_number [of PosInfinity] constructor_any_number [of "Finite (- (1 / 2))"]
  by simp

section \<open>Remarks\<close>

text \<open>
  The integer in C3 matters: the constructor also takes one half, and the first
  \<^verbatim>\<open>acquire\<close> on that semaphore, which is not locked, leaves the counter below zero.
\<close>

lemma half_permit_goes_negative:
  "constructor (Finite (1 / 2)) = Inr \<lparr>s_value = Finite (1 / 2), s_waiters = []\<rparr> \<and>
   s_value (sem (exec [OpAcquire] (init \<lparr>s_value = Finite (1 / 2), s_waiters = []\<rparr> :: (unit, unit) world)))
     = Finite (- (1 / 2))"
  by (simp add: constructor_def init_def call_defs acquire_def locked_def round_minus_half)


end
